theory Spec2Isabelle
  imports Main "HOL-Library.Sublist"
begin

section \<open>Python strings\<close>

text \<open>
  A Python \<open>str\<close> is a sequence of Unicode code points, and \<open>len\<close> counts code
  points. The chunker splits on the danda (U+0964), which is one code point but three
  bytes in UTF-8, so a string is modelled as a list of code points and not as a list of
  bytes.
\<close>

type_synonym codepoint = nat
type_synonym pystr = "codepoint list"

definition newline :: codepoint where
  "newline = 10"

definition tab :: codepoint where
  "tab = 9"

definition danda :: codepoint where
  "danda = 2404"

definition blank_line :: pystr where
  "blank_line = [newline, newline]"

text \<open>
  \<open>str.isspace\<close> on one code point: the code points that \<open>str.strip()\<close> removes when it
  is called without an argument (U+0009..U+000D, U+001C..U+0020, U+0085, U+00A0, U+1680,
  U+2000..U+200A, U+2028, U+2029, U+202F, U+205F, U+3000).
\<close>

definition py_isspace :: "codepoint \<Rightarrow> bool" where
  "py_isspace c \<longleftrightarrow>
     (9 \<le> c \<and> c \<le> 13) \<or> (28 \<le> c \<and> c \<le> 32) \<or> c = 133 \<or> c = 160 \<or> c = 5760 \<or>
     (8192 \<le> c \<and> c \<le> 8202) \<or> c = 8232 \<or> c = 8233 \<or> c = 8239 \<or> c = 8287 \<or> c = 12288"

definition py_strip :: "pystr \<Rightarrow> pystr" where
  "py_strip s = rev (dropWhile py_isspace (rev (dropWhile py_isspace s)))"

text \<open>
  \<open>s.split(sep)\<close> for a non-empty separator: the occurrences of \<open>sep\<close> are found from
  left to right and do not overlap; the result always has at least one piece. Python
  raises \<open>ValueError\<close> for an empty separator; every call in the source passes a
  non-empty literal, and the guard \<open>sep \<noteq> []\<close> only keeps the recursion well founded.
\<close>

function py_split :: "pystr \<Rightarrow> pystr \<Rightarrow> pystr list" where
  "py_split sep [] = [[]]"
| "py_split sep (c # cs) =
     (if sep \<noteq> [] \<and> prefix sep (c # cs)
      then [] # py_split sep (drop (length sep) (c # cs))
      else (case py_split sep cs of
              [] \<Rightarrow> [[c]]
            | p # ps \<Rightarrow> (c # p) # ps))"
  by pat_completeness auto
termination
  by (relation "measure (\<lambda>(sep, s). length s)") (auto simp: neq_Nil_conv)

text \<open>\<open>sub in s\<close> for strings.\<close>

fun py_contains :: "pystr \<Rightarrow> pystr \<Rightarrow> bool" where
  "py_contains sub [] = (sub = [])"
| "py_contains sub (c # cs) = (prefix sub (c # cs) \<or> py_contains sub cs)"

section \<open>The chunker: \<open>DocumentProcessor.chunk_text\<close>\<close>

text \<open>
  The state of both loops is the pair \<open>(chunks, current_chunk)\<close>. \<open>max_chunk_size\<close> is a
  Python \<open>int\<close> and may be negative, so lengths are compared as integers.
\<close>

type_synonym chunker = "pystr list \<times> pystr"

definition flush :: "chunker \<Rightarrow> pystr list" where
  "flush st = (case st of (chunks, current_chunk) \<Rightarrow>
     if current_chunk \<noteq> [] then chunks @ [py_strip current_chunk] else chunks)"

definition too_long :: "int \<Rightarrow> pystr \<Rightarrow> bool" where
  "too_long max_chunk_size s \<longleftrightarrow> int (length s) > max_chunk_size"

text \<open>Lines 61 to 63: the pieces of an oversized paragraph.\<close>

definition sentences_of :: "pystr \<Rightarrow> pystr list" where
  "sentences_of paragraph =
     (let sentences = py_split [danda] paragraph
      in if length sentences = 1 then py_split [tab] paragraph else sentences)"

text \<open>Lines 65 to 71: the loop over the sentences of an oversized paragraph.\<close>

fun sentence_loop :: "int \<Rightarrow> pystr list \<Rightarrow> chunker \<Rightarrow> chunker" where
  "sentence_loop max_chunk_size [] st = st"
| "sentence_loop max_chunk_size (sentence # rest) (chunks, current_chunk) =
     (if too_long max_chunk_size (current_chunk @ sentence)
      then sentence_loop max_chunk_size rest (flush (chunks, current_chunk), sentence @ [tab])
      else sentence_loop max_chunk_size rest (chunks, current_chunk @ sentence @ [tab]))"

text \<open>Lines 55 to 78: the loop over the paragraphs.\<close>

fun paragraph_loop :: "int \<Rightarrow> pystr list \<Rightarrow> chunker \<Rightarrow> chunker" where
  "paragraph_loop max_chunk_size [] st = st"
| "paragraph_loop max_chunk_size (paragraph # rest) (chunks, current_chunk) =
     (if too_long max_chunk_size paragraph
      then paragraph_loop max_chunk_size rest
             (sentence_loop max_chunk_size (sentences_of paragraph)
                (flush (chunks, current_chunk), []))
      else if too_long max_chunk_size (current_chunk @ paragraph)
      then paragraph_loop max_chunk_size rest
             (flush (chunks, current_chunk), paragraph @ blank_line)
      else paragraph_loop max_chunk_size rest
             (chunks, current_chunk @ paragraph @ blank_line))"

definition chunk_text :: "pystr \<Rightarrow> int \<Rightarrow> pystr list" where
  "chunk_text text max_chunk_size =
     flush (paragraph_loop max_chunk_size (py_split blank_line text) ([], []))"

section \<open>Python arithmetic in \<open>update_progress\<close>\<close>

text \<open>
  The percentage is \<open>int((current / total) * 100)\<close>. For two Python integers \<open>/\<close> is true
  division: the quotient is rounded to the nearest IEEE 754 binary64 value (ties to even), and
  \<open>OverflowError\<close> is raised when that value is out of range. The product with \<open>100\<close> is a
  binary64 multiplication, rounded the same way, and \<open>int\<close> truncates towards zero (it raises
  \<open>OverflowError\<close> on an infinite product). So the result is decided by two roundings, and
  they are modelled exactly: a finite binary64 value is a pair \<open>(m, e)\<close> of integers that
  stands for \<open>m * 2 ^ e\<close>, with \<open>\<bar>m\<bar> \<le> 2 ^ 53\<close> and \<open>- 1074 \<le> e\<close>.
\<close>

datatype py_error = OverflowError | ValueError

text \<open>\<open>int.bit_length\<close>: the number of binary digits of \<open>n\<close>.\<close>

function bit_length :: "nat \<Rightarrow> nat" where
  "bit_length n = (if n = 0 then 0 else Suc (bit_length (n div 2)))"
  by pat_completeness auto
termination
  by (relation "measure id") auto

declare bit_length.simps [simp del]

text \<open>
  The binary exponent of the positive rational \<open>n / d\<close>: the \<open>k\<close> with
  \<open>2 ^ k \<le> n / d < 2 ^ (k + 1)\<close>. The difference of the bit lengths is \<open>k\<close> or \<open>k + 1\<close>.
\<close>

definition floor_log2 :: "nat \<Rightarrow> nat \<Rightarrow> int" where
  "floor_log2 n d =
     (let k = int (bit_length n) - int (bit_length d)
      in if (if 0 \<le> k then d * 2 ^ nat k \<le> n else d \<le> n * 2 ^ nat (- k)) then k else k - 1)"

text \<open>The integer nearest to \<open>n / d\<close>, a tie going to the even neighbour.\<close>

definition round_half_even :: "nat \<Rightarrow> nat \<Rightarrow> nat" where
  "round_half_even n d =
     (let q = n div d; r = n mod d
      in if 2 * r < d then q else if d < 2 * r then q + 1 else if even q then q else q + 1)"

text \<open>
  Rounding the non-negative rational \<open>n / d\<close> to binary64: the result keeps 53 significant
  bits (fewer below \<open>2 ^ - 1022\<close>, where the exponent stays at \<open>- 1074\<close>), and there is none
  (\<open>None\<close>) when the rounded value reaches \<open>2 ^ 1024\<close>.
\<close>

type_synonym magnitude = "nat \<times> int"

definition round_to_double :: "nat \<Rightarrow> nat \<Rightarrow> magnitude option" where
  "round_to_double n d =
     (if n = 0 then Some (0, 0)
      else let e = max (floor_log2 n d - 52) (- 1074);
               m = (if 0 \<le> e then round_half_even n (d * 2 ^ nat e)
                    else round_half_even (n * 2 ^ nat (- e)) d)
           in if 971 < e \<or> (e = 971 \<and> 2 ^ 53 \<le> m) then None else Some (m, e))"

type_synonym double = "int \<times> int"

definition signed :: "bool \<Rightarrow> magnitude \<Rightarrow> double" where
  "signed negative x = (case x of (m, e) \<Rightarrow> (if negative then - int m else int m, e))"

text \<open>\<open>a / b\<close> for Python integers with \<open>b \<noteq> 0\<close> (the source divides only when \<open>total > 0\<close>).\<close>

definition py_truediv :: "int \<Rightarrow> int \<Rightarrow> py_error + double" where
  "py_truediv a b =
     (case round_to_double (nat \<bar>a\<bar>) (nat \<bar>b\<bar>) of
        None \<Rightarrow> Inl OverflowError
      | Some x \<Rightarrow> Inr (signed ((a < 0) \<noteq> (b < 0)) x))"

text \<open>The product of two finite binary64 values; \<open>None\<close> is an infinite product.\<close>

definition float_mul :: "double \<Rightarrow> double \<Rightarrow> double option" where
  "float_mul x y =
     (case (x, y) of ((m1, e1), (m2, e2)) \<Rightarrow>
        let n = nat \<bar>m1 * m2\<bar>; e = e1 + e2
        in map_option (signed (m1 * m2 < 0))
             (if 0 \<le> e then round_to_double (n * 2 ^ nat e) 1 else round_to_double n (2 ^ nat (- e))))"

text \<open>The conversion of a small integer such as \<open>100\<close> to binary64 is exact.\<close>

definition float_of_int_exact :: "int \<Rightarrow> double" where
  "float_of_int_exact i = (i, 0)"

text \<open>\<open>int(x)\<close> for a finite binary64 value: truncation towards zero.\<close>

definition py_int :: "double \<Rightarrow> int" where
  "py_int x = (case x of (m, e) \<Rightarrow>
     if 0 \<le> e then m * 2 ^ nat e
     else if m < 0 then - (\<bar>m\<bar> div 2 ^ nat (- e)) else m div 2 ^ nat (- e))"

text \<open>The expression \<open>int((current / total) * 100) if total > 0 else 0\<close>.\<close>

definition percentage_of :: "int \<Rightarrow> int \<Rightarrow> py_error + int" where
  "percentage_of cur tot =
     (if tot > 0
      then (case py_truediv cur tot of
              Inl err \<Rightarrow> Inl err
            | Inr q \<Rightarrow> (case float_mul q (float_of_int_exact 100) of
                         None \<Rightarrow> Inl OverflowError
                       | Some p \<Rightarrow> Inr (py_int p)))
      else Inr 0)"

section \<open>Progress reporting: \<open>update_progress\<close>\<close>

text \<open>
  \<open>progress_tracker\<close> is imported from \<open>config\<close>, which is not among the sources; it is
  used as a dictionary from job identifiers to snapshots and is modelled as a map.
  \<open>job_id\<close> is a string or \<open>None\<close>, and \<open>if self.job_id\<close> fails for \<open>None\<close> and for the
  empty string. The dictionary is written only after the percentage has been computed, so
  a failing computation leaves it unchanged.
\<close>

record snapshot =
  current :: int
  total :: int
  status :: pystr
  percentage :: int

type_synonym tracker = "pystr \<rightharpoonup> snapshot"

definition update_progress ::
    "pystr option \<Rightarrow> int \<Rightarrow> int \<Rightarrow> pystr \<Rightarrow> tracker \<Rightarrow> py_error + tracker" where
  "update_progress job_id cur tot stat progress_tracker =
     (case job_id of
        None \<Rightarrow> Inr progress_tracker
      | Some job \<Rightarrow>
          if job = [] then Inr progress_tracker
          else (case percentage_of cur tot of
                  Inl err \<Rightarrow> Inl err
                | Inr pct \<Rightarrow>
                    Inr (progress_tracker(job \<mapsto>
                      \<lparr>current = cur, total = tot, status = stat, percentage = pct\<rparr>))))"

text \<open>ASCII literals as code points, and \<open>str(n)\<close> for a natural number.\<close>

definition ascii :: "string \<Rightarrow> pystr" where
  "ascii s = map of_char s"

function digits :: "nat \<Rightarrow> pystr" where
  "digits n = (if n < 10 then [48 + n] else digits (n div 10) @ [48 + n mod 10])"
  by pat_completeness auto
termination
  by (relation "measure id") auto

declare digits.simps [simp del]

section \<open>The dispatcher: \<open>process_with_rate_limit\<close> and \<open>process_chunks_parallel\<close>\<close>

text \<open>
  A value that the processor returns is a string or \<open>None\<close>; \<open>result if result else ...\<close>
  tests its truth value. A call of a collaborator either returns or raises an \<open>Exception\<close>,
  which is kept as its message \<open>str(e)\<close>, the only part the source reads. (An exception
  that is not an \<open>Exception\<close>, such as \<open>KeyboardInterrupt\<close>, is not a failure of the
  processor and is not modelled.)

  The processor is supplied by the caller and talks to a remote service, so two calls on the
  same chunk may end differently: it is a function of the chunk and of the state of the
  world, and returns the new state with its outcome.
\<close>

datatype pyval = PyNone | PyStr pystr

fun truthy :: "pyval \<Rightarrow> bool" where
  "truthy PyNone = False"
| "truthy (PyStr s) = (s \<noteq> [])"

datatype 'a result = Raised pystr | Returned 'a

type_synonym outcome = "pyval result"

type_synonym 'w processor = "pystr \<Rightarrow> 'w \<Rightarrow> outcome \<times> 'w"

text \<open>
  \<open>str.lower\<close>, as far as a test for an ASCII substring can see it: \<open>A\<close> to \<open>Z\<close> are
  lowered, and the only other code points whose lower case contains an ASCII letter are
  U+0130 (to \<open>i\<close> and U+0307) and U+212A (to \<open>k\<close>). Every other code point is left as it
  is; Python maps it to code points outside ASCII, which changes no such test.
\<close>

definition lower_codepoint :: "codepoint \<Rightarrow> pystr" where
  "lower_codepoint c =
     (if 65 \<le> c \<and> c \<le> 90 then [c + 32]
      else if c = 304 then [105, 775]
      else if c = 8490 then [107]
      else [c])"

definition py_lower :: "pystr \<Rightarrow> pystr" where
  "py_lower s = concat (map lower_codepoint s)"

text \<open>Line 118: the test that sends a failure to the retry.\<close>

definition rate_limit_signature :: "pystr \<Rightarrow> bool" where
  "rate_limit_signature msg \<longleftrightarrow>
     py_contains (ascii ''429'') msg \<or> py_contains (ascii ''quota'') (py_lower msg) \<or>
     py_contains (ascii ''rate'') (py_lower msg)"

text \<open>
  What the dispatcher does to the outside is recorded as a trace of events, each with the
  index of the unit it is made for: \<open>Acquired i\<close> is one pass through the locked block of
  \<open>process_with_rate_limit\<close>, \<open>Called i out\<close> is one call of the processor on \<open>chunks[i]\<close>
  that ended with \<open>out\<close>, and \<open>Slept i n\<close> is \<open>time.sleep(n)\<close> in the retry branch for unit
  \<open>i\<close>. The locked block only reads the clock, sleeps and stores the time of the request; it
  has no other effect on the state modelled here.
\<close>

datatype event = Acquired nat | Called nat outcome | Slept nat nat

text \<open>
  The calling thread is idle (between two futures of \<open>as_completed\<close>) or inside the retry
  for one unit: asleep, awake before the rate limiter, or past the rate limiter and before
  the call.
\<close>

datatype phase = Idle | Sleeping nat | Awake nat | Admitted nat

text \<open>
  The state of one call of \<open>process_chunks_parallel\<close>: the world the processor acts on, the
  tasks whose worker has passed the rate limiter, the futures that are done (by the index
  \<open>future_to_index\<close> gives them), the futures that \<open>as_completed\<close> has yielded, where the
  calling thread stands, and the local variables \<open>results\<close> and \<open>completed\<close>.
\<close>

record 'w pool =
  world :: 'w
  admitted :: "nat set"
  futures :: "nat \<rightharpoonup> outcome"
  yielded :: "nat set"
  main_thread :: phase
  results :: "pyval list"
  completed :: nat
  progress_tracker :: tracker
  trace :: "event list"

text \<open>
  \<open>process_with_rate_limit\<close> is the locked block (lines 87 to 92) followed by the call of
  the processor (line 94). The lock is released in between, so other threads may run
  between the two, and they are two steps of the thread that executes the function.
\<close>

definition rate_limit_block :: "nat \<Rightarrow> 'w pool \<Rightarrow> 'w pool" where
  "rate_limit_block i s = s\<lparr>trace := trace s @ [Acquired i]\<rparr>"

definition call_processor :: "'w processor \<Rightarrow> nat \<Rightarrow> pystr \<Rightarrow> 'w pool \<Rightarrow> outcome \<times> 'w pool" where
  "call_processor process_func i chunk s =
     (case process_func chunk (world s) of
        (out, w) \<Rightarrow> (out, s\<lparr>world := w, trace := trace s @ [Called i out]\<rparr>))"

text \<open>\<open>result if result else chunks[index]\<close>, and the assignment to \<open>results[index]\<close>.\<close>

definition keep :: "pyval \<Rightarrow> pystr \<Rightarrow> pyval" where
  "keep result chunk = (if truthy result then result else PyStr chunk)"

definition store :: "nat \<Rightarrow> pyval \<Rightarrow> 'w pool \<Rightarrow> 'w pool" where
  "store i v s = s\<lparr>results := (results s)[i := v]\<rparr>"

definition progress_status :: "pystr \<Rightarrow> nat \<Rightarrow> nat \<Rightarrow> pystr" where
  "progress_status operation_name done n =
     operation_name @ ascii '': '' @ digits done @ ascii ''/'' @ digits n"

text \<open>
  The threads are modelled by a schedule, a list of actions, each one step of one thread.
  Of the worker that runs the task submitted for \<open>chunks[i]\<close>: \<open>Admit i\<close>, it passes the
  rate limiter, and \<open>Run i\<close>, it calls the processor and its future is done. Of the calling
  thread: \<open>Yield i\<close>, \<open>as_completed\<close> yields the future of index \<open>i\<close> and the body of the
  loop runs (lines 110 to 129) up to the assignment to \<open>results[index]\<close> or, after a failure
  of the rate limit class, up to \<open>time.sleep(5)\<close>; \<open>Wake\<close>, the sleep ends; \<open>Readmit\<close>, the
  thread passes the rate limiter; \<open>Rerun\<close>, it calls the processor again and assigns to
  \<open>results[index]\<close>. The actions of the workers may come between any two actions of the
  calling thread, also while it sleeps.

  An action that cannot happen (a task that has run, a future that is not done or was
  yielded before, an index out of range, a step of the retry when there is none, a future
  yielded while the calling thread is inside a retry) changes nothing. A call of the
  processor is one step on the world, so calls that overlap in time are modelled by their
  interleavings. The number of workers limits how many tasks run at once, not the orders
  in which they can finish; it decides only whether the pool can be made.
\<close>

datatype action = Admit nat | Run nat | Yield nat | Wake | Readmit | Rerun

definition admit :: "pystr list \<Rightarrow> nat \<Rightarrow> 'w pool \<Rightarrow> 'w pool" where
  "admit chunks i s =
     (if i < length chunks \<and> i \<notin> admitted s
      then (rate_limit_block i s)\<lparr>admitted := insert i (admitted s)\<rparr>
      else s)"

definition run :: "'w processor \<Rightarrow> pystr list \<Rightarrow> nat \<Rightarrow> 'w pool \<Rightarrow> 'w pool" where
  "run process_func chunks i s =
     (if i < length chunks \<and> i \<in> admitted s \<and> futures s i = None
      then (case call_processor process_func i (chunks ! i) s of
              (out, s') \<Rightarrow> s'\<lparr>futures := (futures s')(i \<mapsto> out)\<rparr>)
      else s)"

definition yield :: "pystr option \<Rightarrow> pystr \<Rightarrow> pystr list \<Rightarrow> nat \<Rightarrow> 'w pool \<Rightarrow> py_error + 'w pool" where
  "yield job_id operation_name chunks i s =
     (case futures s i of
        None \<Rightarrow> Inr s
      | Some out \<Rightarrow>
          if main_thread s = Idle \<and> i \<notin> yielded s \<and> i < length chunks
          then (case update_progress job_id (int (completed s + 1)) (int (length chunks))
                       (progress_status operation_name (completed s + 1) (length chunks))
                       (progress_tracker s) of
                  Inl err \<Rightarrow> Inl err
                | Inr tr \<Rightarrow>
                    let s1 = s\<lparr>yielded := insert i (yielded s), completed := completed s + 1,
                                progress_tracker := tr\<rparr>
                    in (case out of
                          Returned r \<Rightarrow> Inr (store i (keep r (chunks ! i)) s1)
                        | Raised msg \<Rightarrow>
                            if rate_limit_signature msg
                            then Inr (s1\<lparr>main_thread := Sleeping i\<rparr>)
                            else Inr (store i (PyStr (chunks ! i)) s1)))
          else Inr s)"

definition wake :: "'w pool \<Rightarrow> 'w pool" where
  "wake s =
     (case main_thread s of
        Sleeping i \<Rightarrow> s\<lparr>main_thread := Awake i, trace := trace s @ [Slept i 5]\<rparr>
      | _ \<Rightarrow> s)"

definition readmit :: "'w pool \<Rightarrow> 'w pool" where
  "readmit s =
     (case main_thread s of
        Awake i \<Rightarrow> (rate_limit_block i s)\<lparr>main_thread := Admitted i\<rparr>
      | _ \<Rightarrow> s)"

definition rerun :: "'w processor \<Rightarrow> pystr list \<Rightarrow> 'w pool \<Rightarrow> 'w pool" where
  "rerun process_func chunks s =
     (case main_thread s of
        Admitted i \<Rightarrow>
          (case call_processor process_func i (chunks ! i) s of
             (Returned r, s') \<Rightarrow> store i (keep r (chunks ! i)) (s'\<lparr>main_thread := Idle\<rparr>)
           | (Raised retry_error, s') \<Rightarrow> store i (PyStr (chunks ! i)) (s'\<lparr>main_thread := Idle\<rparr>))
      | _ \<Rightarrow> s)"

fun run_pool ::
    "'w processor \<Rightarrow> pystr option \<Rightarrow> pystr \<Rightarrow> pystr list \<Rightarrow> action list \<Rightarrow> 'w pool \<Rightarrow> py_error + 'w pool" where
  "run_pool process_func job_id operation_name chunks [] s = Inr s"
| "run_pool process_func job_id operation_name chunks (Admit i # sched) s =
     run_pool process_func job_id operation_name chunks sched (admit chunks i s)"
| "run_pool process_func job_id operation_name chunks (Run i # sched) s =
     run_pool process_func job_id operation_name chunks sched (run process_func chunks i s)"
| "run_pool process_func job_id operation_name chunks (Yield i # sched) s =
     (case yield job_id operation_name chunks i s of
        Inl err \<Rightarrow> Inl err
      | Inr s' \<Rightarrow> run_pool process_func job_id operation_name chunks sched s')"
| "run_pool process_func job_id operation_name chunks (Wake # sched) s =
     run_pool process_func job_id operation_name chunks sched (wake s)"
| "run_pool process_func job_id operation_name chunks (Readmit # sched) s =
     run_pool process_func job_id operation_name chunks sched (readmit s)"
| "run_pool process_func job_id operation_name chunks (Rerun # sched) s =
     run_pool process_func job_id operation_name chunks sched (rerun process_func chunks s)"

text \<open>
  \<open>max_workers\<close> is the field of the object, an integer. Line 101 makes the pool, and
  \<open>ThreadPoolExecutor\<close> raises \<open>ValueError\<close> unless \<open>max_workers\<close> is positive; no task
  has been submitted then. Otherwise the function returns \<open>results\<close> of the final state;
  the other fields are its effects. An \<open>Inl\<close> is an exception that leaves the function.
\<close>

definition process_chunks_parallel ::
    "'w processor \<Rightarrow> int \<Rightarrow> pystr option \<Rightarrow> pystr \<Rightarrow> pystr list \<Rightarrow> action list \<Rightarrow> 'w \<Rightarrow> tracker
       \<Rightarrow> py_error + 'w pool" where
  "process_chunks_parallel process_func max_workers job_id operation_name chunks sched w tr =
     (if max_workers \<le> 0 then Inl ValueError
      else run_pool process_func job_id operation_name chunks sched
             \<lparr>world = w, admitted = {}, futures = Map.empty, yielded = {}, main_thread = Idle,
              results = replicate (length chunks) PyNone, completed = 0, progress_tracker = tr,
              trace = []\<rparr>)"

text \<open>
  The schedules of the executions that end. The executor runs every task and
  \<open>as_completed\<close> yields every future after its task is done: a schedule serves index \<open>i\<close>
  when \<open>Admit i\<close>, \<open>Run i\<close> and \<open>Yield i\<close> occur in it in this order. The calling thread
  ends the body of the loop before it takes the next future: its actions are paced when
  each \<open>Yield\<close> is followed by \<open>Wake\<close>, \<open>Readmit\<close> and \<open>Rerun\<close> (which change nothing
  when the body had no retry) before the next \<open>Yield\<close>.
\<close>

definition unit_served :: "nat \<Rightarrow> action list \<Rightarrow> bool" where
  "unit_served i sched \<longleftrightarrow>
     Yield i \<in> set (dropWhile (\<lambda>x. x \<noteq> Run i) (dropWhile (\<lambda>x. x \<noteq> Admit i) sched))"

fun of_main :: "action \<Rightarrow> bool" where
  "of_main (Admit i) = False"
| "of_main (Run i) = False"
| "of_main a = True"

fun paced :: "action list \<Rightarrow> bool" where
  "paced [] = True"
| "paced (Yield i # Wake # Readmit # Rerun # sched) = paced sched"
| "paced sched = False"

definition complete_schedule :: "nat \<Rightarrow> action list \<Rightarrow> bool" where
  "complete_schedule n sched \<longleftrightarrow> paced (filter of_main sched) \<and> (\<forall>i<n. unit_served i sched)"

text \<open>
  The events made for unit \<open>i\<close>, in their order; the outcomes of the calls among them; and
  the value that these outcomes leave for the unit (the last call decides).
\<close>

fun unit_of :: "event \<Rightarrow> nat" where
  "unit_of (Acquired i) = i"
| "unit_of (Called i out) = i"
| "unit_of (Slept i n) = i"

definition unit_trace :: "nat \<Rightarrow> event list \<Rightarrow> event list" where
  "unit_trace i evs = filter (\<lambda>ev. unit_of ev = i) evs"

definition attempts :: "nat \<Rightarrow> event list \<Rightarrow> outcome list" where
  "attempts i evs =
     concat (map (\<lambda>ev. case ev of Called j out \<Rightarrow> [out] | _ \<Rightarrow> []) (unit_trace i evs))"

definition unit_outcome :: "pystr \<Rightarrow> outcome list \<Rightarrow> pyval" where
  "unit_outcome chunk outs =
     (if outs = [] then PyNone
      else (case last outs of Returned r \<Rightarrow> keep r chunk | Raised msg \<Rightarrow> PyStr chunk))"

section \<open>The OCR pipeline: \<open>perform_ocr\<close>\<close>

text \<open>
  \<open>image_to_base64\<close> needs the imaging library and \<open>extract_text_from_image\<close> the remote
  text recognition service, so both are parameters of the model: the encoder is a function
  of the image, the extraction a function of the encoded image and of the state of the
  world. Each returns a string or raises. The model starts from the list of page images
  that \<open>pdf_to_images\<close> has returned.
\<close>

type_synonym 'img encoder = "'img \<Rightarrow> pystr result"

type_synonym 'w extractor = "pystr \<Rightarrow> 'w \<Rightarrow> pystr result \<times> 'w"

definition page_status :: "nat \<Rightarrow> nat \<Rightarrow> pystr" where
  "page_status index n =
     ascii ''Extracting text from page '' @ digits (index + 1) @ ascii ''/'' @ digits n"

record 'w ocr_pool =
  ocr_world :: 'w
  ocr_tracker :: tracker
  page_futures :: "nat \<rightharpoonup> nat \<times> pystr"
  pages_yielded :: "nat set"
  extracted_texts :: "pyval list"

text \<open>
  Lines 382 to 391. Everything happens inside \<open>try\<close>, so the function always returns a
  pair; the progress written before a failure stays written.
\<close>

definition ocr_page ::
    "'img encoder \<Rightarrow> 'w extractor \<Rightarrow> pystr option \<Rightarrow> nat \<Rightarrow> nat \<times> 'img \<Rightarrow> 'w ocr_pool
       \<Rightarrow> (nat \<times> pystr) \<times> 'w ocr_pool" where
  "ocr_page image_to_base64 extract_text_from_image job_id n index_image_tuple s =
     (case index_image_tuple of (index, page_image) \<Rightarrow>
        (case update_progress job_id (int (index + 1)) (int n) (page_status index n) (ocr_tracker s) of
           Inl err \<Rightarrow> ((index, []), s)
         | Inr tr \<Rightarrow>
             (case image_to_base64 page_image of
                Raised err \<Rightarrow> ((index, []), s\<lparr>ocr_tracker := tr\<rparr>)
              | Returned base64_image \<Rightarrow>
                  (case extract_text_from_image base64_image (ocr_world s) of
                     (Raised err, w) \<Rightarrow> ((index, []), s\<lparr>ocr_world := w, ocr_tracker := tr\<rparr>)
                   | (Returned text, w) \<Rightarrow>
                       ((index, if py_strip text \<noteq> [] then text else []),
                        s\<lparr>ocr_world := w, ocr_tracker := tr\<rparr>)))))"

text \<open>
  The pool of five workers is modelled by a schedule, a list of steps: \<open>Work i\<close> runs
  \<open>ocr_page\<close> on page \<open>i\<close>, and \<open>Complete i\<close> is the body of the loop over
  \<open>as_completed\<close> for its future. A step that cannot happen (a task that has run, a future
  that is not done or was yielded before, an index out of range) changes nothing. The
  executor runs every task and \<open>as_completed\<close> yields every future, after its task: a
  schedule serves page \<open>i\<close> when \<open>Complete i\<close> occurs in it after \<open>Work i\<close>.
\<close>

datatype step = Work nat | Complete nat

definition served :: "nat \<Rightarrow> step list \<Rightarrow> bool" where
  "served i sched \<longleftrightarrow> Complete i \<in> set (dropWhile (\<lambda>x. x \<noteq> Work i) sched)"

definition ocr_work ::
    "'img encoder \<Rightarrow> 'w extractor \<Rightarrow> pystr option \<Rightarrow> 'img list \<Rightarrow> nat \<Rightarrow> 'w ocr_pool \<Rightarrow> 'w ocr_pool" where
  "ocr_work image_to_base64 extract_text_from_image job_id images i s =
     (if i < length images \<and> page_futures s i = None
      then (case ocr_page image_to_base64 extract_text_from_image job_id (length images)
                   (i, images ! i) s of
              (r, s') \<Rightarrow> s'\<lparr>page_futures := (page_futures s')(i \<mapsto> r)\<rparr>)
      else s)"

definition ocr_complete :: "nat \<Rightarrow> 'w ocr_pool \<Rightarrow> 'w ocr_pool" where
  "ocr_complete i s =
     (case page_futures s i of
        None \<Rightarrow> s
      | Some (index, text) \<Rightarrow>
          if i \<in> pages_yielded s then s
          else s\<lparr>pages_yielded := insert i (pages_yielded s),
                 extracted_texts := (extracted_texts s)[index := PyStr text]\<rparr>)"

fun run_ocr ::
    "'img encoder \<Rightarrow> 'w extractor \<Rightarrow> pystr option \<Rightarrow> 'img list \<Rightarrow> step list \<Rightarrow> 'w ocr_pool \<Rightarrow> 'w ocr_pool" where
  "run_ocr image_to_base64 extract_text_from_image job_id images [] s = s"
| "run_ocr image_to_base64 extract_text_from_image job_id images (Work i # sched) s =
     run_ocr image_to_base64 extract_text_from_image job_id images sched
       (ocr_work image_to_base64 extract_text_from_image job_id images i s)"
| "run_ocr image_to_base64 extract_text_from_image job_id images (Complete i # sched) s =
     run_ocr image_to_base64 extract_text_from_image job_id images sched (ocr_complete i s)"

text \<open>\<open>[t for t in extracted_texts if t]\<close> and \<open>sep.join(...)\<close>.\<close>

definition truthy_texts :: "pyval list \<Rightarrow> pystr list" where
  "truthy_texts vs =
     concat (map (\<lambda>v. case v of PyNone \<Rightarrow> [] | PyStr t \<Rightarrow> if t \<noteq> [] then [t] else []) vs)"

fun py_join :: "pystr \<Rightarrow> pystr list \<Rightarrow> pystr" where
  "py_join sep [] = []"
| "py_join sep [t] = t"
| "py_join sep (t # u # ts) = t @ sep @ py_join sep (u # ts)"

text \<open>The function returns the text; the final state of the pool is kept with it.\<close>

definition perform_ocr ::
    "'img encoder \<Rightarrow> 'w extractor \<Rightarrow> pystr option \<Rightarrow> 'img list \<Rightarrow> step list \<Rightarrow> 'w \<Rightarrow> tracker
       \<Rightarrow> pystr \<times> 'w ocr_pool" where
  "perform_ocr image_to_base64 extract_text_from_image job_id images sched w tr =
     (let s = run_ocr image_to_base64 extract_text_from_image job_id images sched
                \<lparr>ocr_world = w, ocr_tracker = tr, page_futures = Map.empty, pages_yielded = {},
                 extracted_texts = replicate (length images) PyNone\<rparr>
      in (py_join blank_line (truthy_texts (extracted_texts s)), s))"

text \<open>
  The text one page contributes when the extraction depends on the encoded image alone:
  empty when either call fails or when the text is white space only.
\<close>

definition page_text :: "'img encoder \<Rightarrow> (pystr \<Rightarrow> pystr result) \<Rightarrow> 'img \<Rightarrow> pystr" where
  "page_text image_to_base64 extract page_image =
     (case image_to_base64 page_image of
        Raised err \<Rightarrow> []
      | Returned base64_image \<Rightarrow>
          (case extract base64_image of
             Raised err \<Rightarrow> []
           | Returned text \<Rightarrow> if py_strip text \<noteq> [] then text else []))"

section \<open>Segments of a text\<close>



section \<open>Invariants of the loops\<close>





definition all_stripped :: "pystr list \<Rightarrow> bool" where
  "all_stripped chunks \<longleftrightarrow> (\<forall>c\<in>set chunks. py_strip c = c)"

text \<open>
  What the chunker keeps of a text: its code points other than white space and the danda, in
  order. \<open>content\<close> is what the chunks emitted so far and the buffer hold of it.
\<close>

definition visible :: "pystr \<Rightarrow> pystr" where
  "visible s = filter (\<lambda>c. \<not> py_isspace c \<and> c \<noteq> danda) s"

definition content :: "chunker \<Rightarrow> pystr" where
  "content st = visible (concat (fst st) @ snd st)"

text \<open>
  For the dispatcher. \<open>stage\<close> tells how far the calling thread is inside the retry for
  unit \<open>i\<close>: 0 when it is not, then 1, 2 and 3 for asleep, awake and past the rate limiter.
  The events of a unit follow its way through the pool: none before its worker has passed
  the rate limiter, then \<open>Acquired\<close>, then the first call; once its future has been yielded
  and the body of the loop has ended, the events are settled: one call that returned, one
  call that failed outside the rate limit class, or a call that failed inside it followed by
  the sleep, the rate limiter and the second call. Until then the result slot holds \<open>None\<close>.
\<close>

fun stage :: "phase \<Rightarrow> nat \<Rightarrow> nat" where
  "stage Idle i = 0"
| "stage (Sleeping j) i = (if j = i then 1 else 0)"
| "stage (Awake j) i = (if j = i then 2 else 0)"
| "stage (Admitted j) i = (if j = i then 3 else 0)"

definition settled :: "event list \<Rightarrow> nat \<Rightarrow> outcome \<Rightarrow> bool" where
  "settled evs i out \<longleftrightarrow>
     (\<exists>r. out = Returned r \<and> unit_trace i evs = [Acquired i, Called i out]) \<or>
     (\<exists>msg. out = Raised msg \<and> \<not> rate_limit_signature msg \<and>
        unit_trace i evs = [Acquired i, Called i out]) \<or>
     (\<exists>msg out2. out = Raised msg \<and> rate_limit_signature msg \<and>
        unit_trace i evs = [Acquired i, Called i out, Slept i 5, Acquired i, Called i out2])"

definition slot_ok :: "pystr list \<Rightarrow> 'w pool \<Rightarrow> nat \<Rightarrow> bool" where
  "slot_ok chunks s i \<longleftrightarrow>
     (if i \<notin> admitted s
      then futures s i = None \<and> i \<notin> yielded s \<and> stage (main_thread s) i = 0 \<and>
           unit_trace i (trace s) = [] \<and> results s ! i = PyNone
      else (case futures s i of
              None \<Rightarrow> i \<notin> yielded s \<and> stage (main_thread s) i = 0 \<and>
                unit_trace i (trace s) = [Acquired i] \<and> results s ! i = PyNone
            | Some out \<Rightarrow>
                if i \<notin> yielded s
                then stage (main_thread s) i = 0 \<and>
                     unit_trace i (trace s) = [Acquired i, Called i out] \<and> results s ! i = PyNone
                else if stage (main_thread s) i = 0
                then settled (trace s) i out \<and>
                     results s ! i = unit_outcome (chunks ! i) (attempts i (trace s))
                else (\<exists>msg. out = Raised msg \<and> rate_limit_signature msg) \<and>
                     unit_trace i (trace s) =
                       [Acquired i, Called i out] @
                       take (stage (main_thread s) i - 1) [Slept i 5, Acquired i] \<and>
                     results s ! i = PyNone))"

definition called_ok :: "'w processor \<Rightarrow> pystr list \<Rightarrow> event \<Rightarrow> bool" where
  "called_ok process_func chunks ev \<longleftrightarrow>
     (case ev of
        Called j out \<Rightarrow> j < length chunks \<and> (\<exists>w. out = fst (process_func (chunks ! j) w))
      | _ \<Rightarrow> True)"

definition phase_ok :: "nat \<Rightarrow> phase \<Rightarrow> bool" where
  "phase_ok n p \<longleftrightarrow> (case p of Idle \<Rightarrow> True | Sleeping j \<Rightarrow> j < n | Awake j \<Rightarrow> j < n | Admitted j \<Rightarrow> j < n)"

definition pool_inv :: "'w processor \<Rightarrow> pystr list \<Rightarrow> 'w pool \<Rightarrow> bool" where
  "pool_inv process_func chunks s \<longleftrightarrow>
     length (results s) = length chunks \<and>
     yielded s \<subseteq> {..<length chunks} \<and>
     completed s = card (yielded s) \<and>
     phase_ok (length chunks) (main_thread s) \<and>
     (\<forall>i<length chunks. slot_ok chunks s i) \<and>
     (\<forall>ev\<in>set (trace s). called_ok process_func chunks ev)"

text \<open>
  What is left of a paced schedule of the calling thread when the thread is in a given
  phase: the rest of the body of the loop, then whole bodies.
\<close>

definition resumes :: "phase \<Rightarrow> action list \<Rightarrow> bool" where
  "resumes p ms \<longleftrightarrow>
     (case p of
        Idle \<Rightarrow> paced ms \<or> (\<exists>r. paced r \<and> (ms = Wake # Readmit # Rerun # r \<or> ms = Readmit # Rerun # r \<or> ms = Rerun # r))
      | Sleeping j \<Rightarrow> (\<exists>r. paced r \<and> ms = Wake # Readmit # Rerun # r)
      | Awake j \<Rightarrow> (\<exists>r. paced r \<and> ms = Readmit # Rerun # r)
      | Admitted j \<Rightarrow> (\<exists>r. paced r \<and> ms = Rerun # r))"

text \<open>
  Index \<open>i\<close> is on its way to being yielded by the rest \<open>sched\<close> of a schedule: it has been
  yielded, or its future is done and \<open>Yield i\<close> is to come, or its worker has passed the
  rate limiter and \<open>Run i\<close> and then \<open>Yield i\<close> are to come, or the rest serves it.
\<close>

definition tracked :: "nat \<Rightarrow> 'w pool \<Rightarrow> action list \<Rightarrow> bool" where
  "tracked i s sched \<longleftrightarrow>
     i \<in> yielded s \<or>
     futures s i \<noteq> None \<and> Yield i \<in> set sched \<or>
     i \<in> admitted s \<and> Yield i \<in> set (dropWhile (\<lambda>x. x \<noteq> Run i) sched) \<or>
     unit_served i sched"

text \<open>
  For the OCR pipeline: the future of page \<open>i\<close> holds what \<open>ocr_page\<close> returned for
  that page in the state it ran in, under the index \<open>i\<close>, and once the future has been
  yielded its text stands in slot \<open>i\<close> of \<open>extracted_texts\<close>.
\<close>

definition page_slot_ok ::
    "'img encoder \<Rightarrow> 'w extractor \<Rightarrow> pystr option \<Rightarrow> 'img list \<Rightarrow> 'w ocr_pool \<Rightarrow> nat \<Rightarrow> bool" where
  "page_slot_ok image_to_base64 extract_text_from_image job_id images s i \<longleftrightarrow>
     (case page_futures s i of
        None \<Rightarrow> i \<notin> pages_yielded s
      | Some r \<Rightarrow>
          fst r = i \<and>
          (\<exists>v. r = fst (ocr_page image_to_base64 extract_text_from_image job_id (length images)
                        (i, images ! i) v)) \<and>
          (i \<in> pages_yielded s \<longrightarrow> extracted_texts s ! i = PyStr (snd r)))"

definition ocr_inv ::
    "'img encoder \<Rightarrow> 'w extractor \<Rightarrow> pystr option \<Rightarrow> 'img list \<Rightarrow> 'w ocr_pool \<Rightarrow> bool" where
  "ocr_inv image_to_base64 extract_text_from_image job_id images s \<longleftrightarrow>
     length (extracted_texts s) = length images \<and>
     dom (page_futures s) \<subseteq> {..<length images} \<and>
     (\<forall>i<length images. page_slot_ok image_to_base64 extract_text_from_image job_id images s i)"

section \<open>Lemmas about strings and the chunker\<close>

lemma isspace_consts: "py_isspace newline" "py_isspace tab" "\<not> py_isspace danda"
  by (simp_all add: py_isspace_def newline_def tab_def danda_def)

lemma py_strip_append_space:
  assumes "\<forall>x\<in>set ws. py_isspace x"
  shows "py_strip (s @ ws) = py_strip s"
proof (cases "\<forall>x\<in>set s. py_isspace x")
  case True
  with assms have "dropWhile py_isspace (s @ ws) = []" "dropWhile py_isspace s = []"
    by auto
  then show ?thesis by (simp only: py_strip_def)
next
  case False
  then have "dropWhile py_isspace (s @ ws) = dropWhile py_isspace s @ ws"
    by (auto simp: dropWhile_append)
  with assms show ?thesis by (simp add: py_strip_def dropWhile_append)
qed

lemma last_dropWhile_eq: "dropWhile P xs \<noteq> [] \<Longrightarrow> last (dropWhile P xs) = last xs"
  by (metis dropWhile_eq_Nil_conv dropWhile_last)

lemma dropWhile_rev_fixed:
  "dropWhile P (rev (dropWhile P (rev (dropWhile P s)))) = rev (dropWhile P (rev (dropWhile P s)))"
  by (metis Nil_is_rev_conv dropWhile_eq_self_iff hd_dropWhile hd_rev
    last_dropWhile_eq rev_rev_ident)

lemma py_strip_idem: "py_strip (py_strip s) = py_strip s"
  by (simp add: py_strip_def dropWhile_rev_fixed)


lemma py_strip_blank: "py_strip (s @ blank_line) = py_strip s"
  by (rule py_strip_append_space) (simp add: blank_line_def isspace_consts)

lemma py_split_absent: "\<not> py_contains sep s \<Longrightarrow> py_split sep s = [s]"
  by (induction s) auto







lemma stripped_flush: "all_stripped (fst st) \<Longrightarrow> all_stripped (flush st)"
  by (cases st) (simp add: all_stripped_def flush_def py_strip_idem)

lemma stripped_sentence_loop:
  "all_stripped (fst st) \<Longrightarrow> all_stripped (fst (sentence_loop S ss st))"
  by (induction S ss st rule: sentence_loop.induct) (simp_all add: stripped_flush)

lemma stripped_paragraph_loop:
  "all_stripped (fst st) \<Longrightarrow> all_stripped (fst (paragraph_loop S ps st))"
  by (induction S ps st rule: paragraph_loop.induct)
     (simp_all add: stripped_flush stripped_sentence_loop)

lemma chunk_text_single:
  assumes "int (length T) \<le> S" and "\<not> py_contains blank_line T"
  shows "chunk_text T S = [py_strip T]"
proof -
  from assms(2) have "py_split blank_line T = [T]" by (rule py_split_absent)
  moreover from assms(1) have "\<not> too_long S T" by (simp add: too_long_def)
  moreover have "T @ blank_line \<noteq> []" by (simp add: blank_line_def)
  ultimately show ?thesis
    by (simp add: chunk_text_def flush_def py_strip_blank)
qed

lemma visible_append: "visible (s @ t) = visible s @ visible t"
  by (simp add: visible_def)

lemma visible_Nil: "visible [] = []"
  by (simp add: visible_def)

lemma visible_Cons: "visible (c # s) = visible [c] @ visible s"
  by (simp add: visible_def)

lemma filter_dropWhile_neg: "(\<And>x. Q x \<Longrightarrow> \<not> P x) \<Longrightarrow> filter Q (dropWhile P xs) = filter Q xs"
  by (induction xs) auto

lemma filter_py_strip: "(\<And>x. Q x \<Longrightarrow> \<not> py_isspace x) \<Longrightarrow> filter Q (py_strip s) = filter Q s"
  by (simp add: py_strip_def filter_dropWhile_neg flip: rev_filter)

lemma visible_py_strip: "visible (py_strip s) = visible s"
  unfolding visible_def by (rule filter_py_strip) simp

lemma visible_separators:
  "visible blank_line = []" "visible [tab] = []" "visible [danda] = []"
  by (simp_all add: visible_def blank_line_def isspace_consts)

lemma py_split_nonempty: "py_split sep s \<noteq> []"
  by (induction sep s rule: py_split.induct) (auto split: list.splits)

lemma visible_py_split:
  "visible sep = [] \<Longrightarrow> visible (concat (py_split sep s)) = visible s"
proof (induction sep s rule: py_split.induct)
  case (1 sep)
  show ?case by simp
next
  case (2 sep c cs)
  show ?case
  proof (cases "sep \<noteq> [] \<and> prefix sep (c # cs)")
    case True
    then have "c # cs = sep @ drop (length sep) (c # cs)"
      by (metis append_eq_conv_conj prefix_def)
    then have "visible (c # cs) = visible (drop (length sep) (c # cs))"
      using "2.prems" by (metis append_Nil visible_append)
    with True "2.IH"(1) "2.prems" show ?thesis by simp
  next
    case False
    obtain p ps where ps: "py_split sep cs = p # ps"
      using py_split_nonempty[of sep cs] by (cases "py_split sep cs") auto
    have split: "py_split sep (c # cs) = (c # p) # ps"
      using False ps by simp
    have "visible (concat ((c # p) # ps)) = visible [c] @ visible (concat (p # ps))"
      by (simp add: visible_Cons[of c "p @ concat ps"])
    also have "\<dots> = visible [c] @ visible cs"
      using "2.IH"(2) False "2.prems" ps by simp
    also have "\<dots> = visible (c # cs)"
      by (rule visible_Cons[symmetric])
    finally show ?thesis by (simp only: split)
  qed
qed

lemma visible_sentences_of: "visible (concat (sentences_of p)) = visible p"
  by (simp add: sentences_of_def Let_def visible_py_split visible_separators)

lemma content_flush: "visible (concat (flush st)) = content st"
  by (cases st) (simp add: flush_def content_def visible_append visible_py_strip visible_Nil)

lemma content_fresh: "content (flush st, buf) = content st @ visible buf"
  using content_flush[of st] by (simp add: content_def visible_append)

lemma content_sentence_loop:
  "content (sentence_loop S ss st) = content st @ visible (concat ss)"
proof (induction S ss st rule: sentence_loop.induct)
  case (1 S st)
  show ?case by (simp add: visible_Nil)
next
  case (2 S sentence rest chunks cur)
  have a: "content (flush (chunks, cur), sentence @ [tab]) = content (chunks, cur) @ visible sentence"
    using content_flush[of "(chunks, cur)"] visible_separators(2)
    by (simp add: content_def visible_append)
  have b: "content (chunks, cur @ sentence @ [tab]) = content (chunks, cur) @ visible sentence"
    using visible_separators(2) by (simp add: content_def visible_append)
  show ?case
    using 2 a b by (cases "too_long S (cur @ sentence)") (simp_all add: visible_append)
qed

lemma content_paragraph_loop:
  "content (paragraph_loop S ps st) = content st @ visible (concat ps)"
proof (induction S ps st rule: paragraph_loop.induct)
  case (1 S st)
  show ?case by (simp add: visible_Nil)
next
  case (2 S para rest chunks cur)
  have a: "content (sentence_loop S (sentences_of para) (flush (chunks, cur), []))
      = content (chunks, cur) @ visible para"
    by (simp only: content_sentence_loop visible_sentences_of content_fresh visible_Nil append_Nil2)
  have b: "content (flush (chunks, cur), para @ blank_line) = content (chunks, cur) @ visible para"
    using content_flush[of "(chunks, cur)"] visible_separators(1)
    by (simp add: content_def visible_append)
  have c: "content (chunks, cur @ para @ blank_line) = content (chunks, cur) @ visible para"
    using visible_separators(1) by (simp add: content_def visible_append)
  show ?case
  proof (cases "too_long S para")
    case True
    with "2.IH"(1) a show ?thesis by (simp add: visible_append)
  next
    case False
    then show ?thesis
      using "2.IH"(2,3) b c by (cases "too_long S (cur @ para)") (simp_all add: visible_append)
  qed
qed

text \<open>
  Apart from white space, the danda is the only code point that the chunker can lose: all
  other code points of the text are in the chunks, in their order.
\<close>

lemma chunk_text_keeps_visible: "visible (concat (chunk_text T S)) = visible T"
  by (simp only: chunk_text_def content_flush content_paragraph_loop)
     (simp add: content_def visible_Nil visible_py_split visible_separators)









section \<open>Lemmas about the percentage\<close>

lemma bit_length_le_iff: "bit_length n \<le> k \<longleftrightarrow> n < 2 ^ k"
proof (induction k arbitrary: n)
  case 0
  show ?case by (subst bit_length.simps) simp
next
  case (Suc k)
  show ?case
  proof (cases "n = 0")
    case True
    then show ?thesis by (subst bit_length.simps) simp
  next
    case False
    have "bit_length n \<le> Suc k \<longleftrightarrow> bit_length (n div 2) \<le> k"
      using False by (subst bit_length.simps) simp
    also have "\<dots> \<longleftrightarrow> n div 2 < 2 ^ k" by (rule Suc.IH)
    also have "\<dots> \<longleftrightarrow> n < 2 ^ Suc k" by auto
    finally show ?thesis .
  qed
qed

lemma less_pow_bit_length: "n < 2 ^ bit_length n"
  using bit_length_le_iff[of n "bit_length n"] by simp

lemma floor_log2_less:
  assumes "n < d * 2 ^ K"
  shows "floor_log2 n d < int K"
proof -
  let ?k = "int (bit_length n) - int (bit_length d)"
  have "d < 2 ^ bit_length d" by (rule less_pow_bit_length)
  then have "d * 2 ^ K \<le> 2 ^ bit_length d * 2 ^ K" by simp
  with assms have "n < 2 ^ bit_length d * 2 ^ K" by (rule less_le_trans)
  then have "n < 2 ^ (bit_length d + K)" by (simp add: power_add)
  then have "bit_length n \<le> bit_length d + K" by (simp add: bit_length_le_iff)
  then have k: "?k \<le> int K" by simp
  show ?thesis
  proof (cases "?k = int K")
    case True
    then have "nat ?k = K" by simp
    with assms True show ?thesis by (simp add: floor_log2_def Let_def)
  next
    case False
    with k have "?k < int K" by simp
    then show ?thesis by (simp add: floor_log2_def Let_def)
  qed
qed

lemma round_half_even_le:
  assumes "0 < d" and "n \<le> N * d"
  shows "round_half_even n d \<le> N"
proof -
  have q: "n div d \<le> N" using assms by (metis div_le_mono div_mult_self_is_m)
  show ?thesis
  proof (cases "n div d = N")
    case True
    have "n = (n div d) * d + n mod d" by simp
    with True assms(2) have "n mod d = 0" by (metis add_le_same_cancel1 le_zero_eq)
    with True assms(1) show ?thesis by (simp add: round_half_even_def Let_def)
  next
    case False
    with q have "n div d < N" by simp
    then show ?thesis by (simp add: round_half_even_def Let_def)
  qed
qed

lemma round_to_double_bound:
  assumes "0 < d" and "n \<le> N * d" and "N < 2 ^ 52"
  shows "\<exists>m e. round_to_double n d = Some (m, e) \<and> e \<le> 0 \<and> m \<le> N * 2 ^ nat (- e)"
proof (cases "n = 0")
  case True
  then show ?thesis by (simp add: round_to_double_def)
next
  case False
  define e where "e = max (floor_log2 n d - 52) (- 1074)"
  have "n < d * 2 ^ 52"
  proof -
    have "N * d < 2 ^ 52 * d" using assms(1,3) by simp
    with assms(2) have "n < 2 ^ 52 * d" by (rule le_less_trans)
    then show ?thesis by (simp add: mult.commute)
  qed
  then have "floor_log2 n d < 52" using floor_log2_less[of n d 52] by simp
  then have e: "e < 0" by (simp add: e_def)
  have "n * 2 ^ nat (- e) \<le> (N * 2 ^ nat (- e)) * d"
    using assms(2) by (simp add: mult.assoc mult.left_commute mult.commute)
  with assms(1) have "round_half_even (n * 2 ^ nat (- e)) d \<le> N * 2 ^ nat (- e)"
    by (rule round_half_even_le)
  with False e show ?thesis
    by (simp add: round_to_double_def Let_def flip: e_def)
qed

lemma percentage_of_bound:
  assumes "0 \<le> cur" and "cur \<le> tot" and "0 < tot"
  shows "\<exists>p. percentage_of cur tot = Inr p \<and> 0 \<le> p \<and> p \<le> 100"
proof -
  have "nat \<bar>cur\<bar> \<le> 1 * nat \<bar>tot\<bar>" using assms by simp
  with round_to_double_bound[of "nat \<bar>tot\<bar>" "nat \<bar>cur\<bar>" 1] assms(3)
  obtain m e where q: "round_to_double (nat \<bar>cur\<bar>) (nat \<bar>tot\<bar>) = Some (m, e)"
    and e: "e \<le> 0" and m: "m \<le> 2 ^ nat (- e)" by auto
  have div: "py_truediv cur tot = Inr (int m, e)"
    using q assms by (simp add: py_truediv_def signed_def)
  have "\<exists>m' e'. float_mul (int m, e) (float_of_int_exact 100) = Some (int m', e') \<and> e' \<le> 0 \<and> m' \<le> 100 * 2 ^ nat (- e')"
  proof (cases "e = 0")
    case True
    with m have "m * 100 \<le> 100 * 1" by simp
    with round_to_double_bound[of 1 "m * 100" 100]
    obtain m' e' where "round_to_double (m * 100) 1 = Some (m', e')" "e' \<le> 0" "m' \<le> 100 * 2 ^ nat (- e')"
      by auto
    with True show ?thesis
      by (simp add: float_mul_def float_of_int_exact_def signed_def nat_mult_distrib)
  next
    case False
    with e have neg: "e < 0" by simp
    from m have "m * 100 \<le> 100 * 2 ^ nat (- e)" by simp
    with round_to_double_bound[of "2 ^ nat (- e)" "m * 100" 100]
    obtain m' e' where "round_to_double (m * 100) (2 ^ nat (- e)) = Some (m', e')" "e' \<le> 0" "m' \<le> 100 * 2 ^ nat (- e')"
      by auto
    with neg show ?thesis
      by (simp add: float_mul_def float_of_int_exact_def signed_def nat_mult_distrib)
  qed
  then obtain m' e' where mul: "float_mul (int m, e) (float_of_int_exact 100) = Some (int m', e')"
    and e': "e' \<le> 0" and m': "m' \<le> 100 * 2 ^ nat (- e')" by auto
  have "m' div 2 ^ nat (- e') \<le> 100"
    using m' by (metis div_le_mono nonzero_mult_div_cancel_right power_not_zero zero_neq_numeral)
  then have "int (m' div 2 ^ nat (- e')) \<le> 100" by simp
  then have "int m' div 2 ^ nat (- e') \<le> 100" by (simp add: zdiv_int)
  moreover have "0 \<le> int m' div 2 ^ nat (- e')" by (simp add: pos_imp_zdiv_nonneg_iff)
  ultimately have "0 \<le> py_int (int m', e') \<and> py_int (int m', e') \<le> 100"
    using e' m' by (auto simp: py_int_def)
  with div mul assms(3) show ?thesis by (simp add: percentage_of_def)
qed

lemma percentage_of_no_total: "tot \<le> 0 \<Longrightarrow> percentage_of cur tot = Inr 0"
  by (simp add: percentage_of_def)

lemma update_progress_unset:
  "update_progress None cur tot stat tr = Inr tr"
  "update_progress (Some []) cur tot stat tr = Inr tr"
  by (simp_all add: update_progress_def)

lemma update_progress_ok:
  assumes "0 < c" and "c \<le> t"
  shows "\<exists>tr'. update_progress job_id (int c) (int t) stat tr = Inr tr'"
proof -
  have "\<exists>p. percentage_of (int c) (int t) = Inr p \<and> 0 \<le> p \<and> p \<le> 100"
    using assms by (intro percentage_of_bound) simp_all
  then show ?thesis by (auto simp: update_progress_def split: option.splits)
qed

section \<open>Lemmas about the dispatcher\<close>

lemma unit_trace_append: "unit_trace i (xs @ ys) = unit_trace i xs @ unit_trace i ys"
  by (simp add: unit_trace_def)

lemma unit_trace_simps:
  "unit_trace i [] = []"
  "unit_trace i [Acquired j] = (if j = i then [Acquired j] else [])"
  "unit_trace i [Called j out] = (if j = i then [Called j out] else [])"
  "unit_trace i [Slept j n] = (if j = i then [Slept j n] else [])"
  by (simp_all add: unit_trace_def)

lemma slot_ok_frame:
  assumes "slot_ok chunks s i"
    and "i \<in> admitted s' \<longleftrightarrow> i \<in> admitted s"
    and "futures s' i = futures s i"
    and "i \<in> yielded s' \<longleftrightarrow> i \<in> yielded s"
    and "stage (main_thread s') i = stage (main_thread s) i"
    and "results s' ! i = results s ! i"
    and "unit_trace i (trace s') = unit_trace i (trace s)"
  shows "slot_ok chunks s' i"
  using assms(1) unfolding slot_ok_def settled_def attempts_def assms(2-) .

lemma called_ok_process:
  "j < length chunks \<Longrightarrow> called_ok process_func chunks (Called j (fst (process_func (chunks ! j) w)))"
  by (auto simp: called_ok_def)

lemma called_ok_other:
  "called_ok process_func chunks (Acquired j)" "called_ok process_func chunks (Slept j n)"
  by (simp_all add: called_ok_def)

lemma pool_inv_admit:
  assumes inv: "pool_inv process_func chunks s"
  shows "pool_inv process_func chunks (admit chunks j s)"
proof (cases "j < length chunks \<and> j \<notin> admitted s")
  case False
  then have "admit chunks j s = s" by (auto simp: admit_def)
  with inv show ?thesis by simp
next
  case True
  let ?s' = "admit chunks j s"
  have eq: "?s' = s\<lparr>trace := trace s @ [Acquired j], admitted := insert j (admitted s)\<rparr>"
    using True by (simp add: admit_def rate_limit_block_def)
  have "slot_ok chunks ?s' i" if i: "i < length chunks" for i
  proof (cases "i = j")
    case True
    from inv i have "slot_ok chunks s i" by (simp add: pool_inv_def)
    with True \<open>j < length chunks \<and> j \<notin> admitted s\<close> show ?thesis
      by (simp add: slot_ok_def eq unit_trace_append unit_trace_simps)
  next
    case False
    from inv i have "slot_ok chunks s i" by (simp add: pool_inv_def)
    then show ?thesis
      by (rule slot_ok_frame) (use False in \<open>simp_all add: eq unit_trace_append unit_trace_simps\<close>)
  qed
  with inv show ?thesis by (simp add: pool_inv_def eq called_ok_other)
qed

lemma pool_inv_run:
  assumes inv: "pool_inv process_func chunks s"
  shows "pool_inv process_func chunks (run process_func chunks j s)"
proof (cases "j < length chunks \<and> j \<in> admitted s \<and> futures s j = None")
  case False
  then have "run process_func chunks j s = s" by (auto simp: run_def)
  with inv show ?thesis by simp
next
  case True
  obtain out w where call: "process_func (chunks ! j) (world s) = (out, w)"
    by (cases "process_func (chunks ! j) (world s)")
  let ?s' = "run process_func chunks j s"
  have eq: "?s' = s\<lparr>world := w, trace := trace s @ [Called j out], futures := (futures s)(j \<mapsto> out)\<rparr>"
    using True call by (simp add: run_def call_processor_def)
  have "slot_ok chunks ?s' i" if i: "i < length chunks" for i
  proof (cases "i = j")
    case True
    from inv i have "slot_ok chunks s i" by (simp add: pool_inv_def)
    with True \<open>j < length chunks \<and> j \<in> admitted s \<and> futures s j = None\<close> show ?thesis
      by (simp add: slot_ok_def eq unit_trace_append unit_trace_simps)
  next
    case False
    from inv i have "slot_ok chunks s i" by (simp add: pool_inv_def)
    then show ?thesis
      by (rule slot_ok_frame) (use False in \<open>simp_all add: eq unit_trace_append unit_trace_simps\<close>)
  qed
  moreover have "called_ok process_func chunks (Called j out)"
    using called_ok_process[of j chunks process_func "world s"] True call by simp
  ultimately show ?thesis using inv by (simp add: pool_inv_def eq)
qed

lemma card_yielded_less:
  assumes "Y \<subseteq> {..<n}" and "j < n" and "j \<notin> Y"
  shows "card Y < n"
proof -
  from assms have "Y \<subset> {..<n}" by auto
  then have "card Y < card {..<n}" by (intro psubset_card_mono) simp_all
  then show ?thesis by simp
qed

lemma attempts_two: "unit_trace i evs = [Acquired i, Called i out] \<Longrightarrow> attempts i evs = [out]"
  by (simp add: attempts_def)

lemma attempts_five:
  "unit_trace i evs = [Acquired i, Called i out, Slept i 5, Acquired i, Called i out2]
     \<Longrightarrow> attempts i evs = [out, out2]"
  by (simp add: attempts_def)

lemma pool_inv_yield:
  assumes inv: "pool_inv process_func chunks s"
  shows "\<exists>s'. yield job_id operation_name chunks j s = Inr s' \<and>
              pool_inv process_func chunks s' \<and>
              admitted s' = admitted s \<and> futures s' = futures s \<and> yielded s \<subseteq> yielded s' \<and>
              (main_thread s = Idle \<and> futures s j \<noteq> None \<and> j < length chunks \<longrightarrow> j \<in> yielded s') \<and>
              (main_thread s' = main_thread s \<or> main_thread s = Idle \<and> main_thread s' = Sleeping j)"
proof (cases "\<exists>out. futures s j = Some out \<and> main_thread s = Idle \<and> j \<notin> yielded s \<and> j < length chunks")
  case False
  then have "yield job_id operation_name chunks j s = Inr s"
    by (cases "futures s j") (auto simp: yield_def)
  moreover have "main_thread s = Idle \<and> futures s j \<noteq> None \<and> j < length chunks \<longrightarrow> j \<in> yielded s"
    using False by auto
  ultimately show ?thesis using inv by (intro exI[of _ s]) simp
next
  case True
  then obtain out where fut: "futures s j = Some out" and idle: "main_thread s = Idle"
    and ny: "j \<notin> yielded s" and j: "j < length chunks"
    by blast
  let ?n = "length chunks"
  from inv have len: "length (results s) = ?n" and sub: "yielded s \<subseteq> {..<?n}"
    and cnt: "completed s = card (yielded s)" and slots: "\<forall>i<?n. slot_ok chunks s i"
    and called: "\<forall>ev\<in>set (trace s). called_ok process_func chunks ev"
    by (simp_all add: pool_inv_def)
  from sub j ny have "card (yielded s) < ?n" by (rule card_yielded_less)
  with cnt have pos: "0 < completed s + 1" and le: "completed s + 1 \<le> ?n" by simp_all
  have "\<exists>tr'. update_progress job_id (int (completed s + 1)) (int ?n)
      (progress_status operation_name (completed s + 1) ?n) (progress_tracker s) = Inr tr'"
    using pos le by (rule update_progress_ok)
  then obtain tr where up: "update_progress job_id (int (completed s + 1)) (int ?n)
      (progress_status operation_name (completed s + 1) ?n) (progress_tracker s) = Inr tr"
    by (elim exE)
  have fin: "finite (yielded s)" using sub by (rule finite_subset) simp
  from slots j have sj: "slot_ok chunks s j" by simp
  have adm: "j \<in> admitted s" using sj fut by (auto simp: slot_ok_def split: if_splits)
  from sj fut ny adm have ut: "unit_trace j (trace s) = [Acquired j, Called j out]"
    and rn: "results s ! j = PyNone"
    by (simp_all add: slot_ok_def)
  define s1 where "s1 = s\<lparr>yielded := insert j (yielded s), completed := completed s + 1, progress_tracker := tr\<rparr>"
  have other: "slot_ok chunks s' i"
    if "i < ?n" "i \<noteq> j" "admitted s' = admitted s" "futures s' = futures s"
      "yielded s' = insert j (yielded s)" "stage (main_thread s') i = 0"
      "results s' ! i = results s ! i" "trace s' = trace s" for s' :: "'a pool" and i
  proof -
    from slots that(1) have "slot_ok chunks s i" by simp
    then show ?thesis
      by (rule slot_ok_frame) (use that idle in simp_all)
  qed
  have build: "pool_inv process_func chunks s'"
    if b: "slot_ok chunks s' j" "admitted s' = admitted s" "futures s' = futures s"
      "yielded s' = insert j (yielded s)" "completed s' = completed s + 1"
      "main_thread s' = Idle \<or> main_thread s' = Sleeping j"
      "length (results s') = ?n" "\<forall>i. i \<noteq> j \<longrightarrow> results s' ! i = results s ! i"
      "trace s' = trace s" for s' :: "'a pool"
  proof -
    have "slot_ok chunks s' i" if i: "i < ?n" for i
    proof (cases "i = j")
      case True
      with \<open>slot_ok chunks s' j\<close> show ?thesis by simp
    next
      case False
      have "stage (main_thread s') i = 0"
        using \<open>main_thread s' = Idle \<or> main_thread s' = Sleeping j\<close> False by auto
      with i False b show ?thesis by (intro other) simp_all
    qed
    moreover have "phase_ok ?n (main_thread s')"
      using \<open>main_thread s' = Idle \<or> main_thread s' = Sleeping j\<close> j by (auto simp: phase_ok_def)
    ultimately show ?thesis
      using b sub j cnt fin ny called by (simp add: pool_inv_def)
  qed
  have mono: "admitted s' = admitted s \<and> futures s' = futures s \<and> yielded s \<subseteq> yielded s' \<and>
      (main_thread s = Idle \<and> futures s j \<noteq> None \<and> j < length chunks \<longrightarrow> j \<in> yielded s') \<and>
      (main_thread s' = main_thread s \<or> main_thread s = Idle \<and> main_thread s' = Sleeping j)"
    if "admitted s' = admitted s" "futures s' = futures s" "yielded s' = insert j (yielded s)"
      "main_thread s' = Idle \<or> main_thread s' = Sleeping j" for s' :: "'a pool"
    using that idle by auto
  show ?thesis
  proof (cases out)
    case (Returned r)
    let ?s' = "store j (keep r (chunks ! j)) s1"
    have run: "yield job_id operation_name chunks j s = Inr ?s'"
      using fut idle ny j up Returned by (simp add: yield_def s1_def)
    have sj': "slot_ok chunks ?s' j"
      using fut adm idle ut j len Returned
      by (simp add: slot_ok_def store_def s1_def settled_def attempts_two unit_outcome_def)
    have "pool_inv process_func chunks ?s'"
      by (rule build) (use sj' len idle in \<open>simp_all add: store_def s1_def\<close>)
    moreover have "admitted ?s' = admitted s" "futures ?s' = futures s"
      "yielded ?s' = insert j (yielded s)" "main_thread ?s' = Idle \<or> main_thread ?s' = Sleeping j"
      using idle by (simp_all add: store_def s1_def)
    ultimately show ?thesis using run mono[of ?s'] by (intro exI[of _ ?s']) simp
  next
    case (Raised msg)
    show ?thesis
    proof (cases "rate_limit_signature msg")
      case False
      let ?s' = "store j (PyStr (chunks ! j)) s1"
      have run: "yield job_id operation_name chunks j s = Inr ?s'"
        using fut idle ny j up Raised False by (simp add: yield_def s1_def)
      have sj': "slot_ok chunks ?s' j"
        using fut adm idle ut j len Raised False
        by (simp add: slot_ok_def store_def s1_def settled_def attempts_two unit_outcome_def)
      have "pool_inv process_func chunks ?s'"
        by (rule build) (use sj' len idle in \<open>simp_all add: store_def s1_def\<close>)
      moreover have "admitted ?s' = admitted s" "futures ?s' = futures s"
        "yielded ?s' = insert j (yielded s)" "main_thread ?s' = Idle \<or> main_thread ?s' = Sleeping j"
        using idle by (simp_all add: store_def s1_def)
      ultimately show ?thesis using run mono[of ?s'] by (intro exI[of _ ?s']) simp
    next
      case True
      let ?s' = "s1\<lparr>main_thread := Sleeping j\<rparr>"
      have run: "yield job_id operation_name chunks j s = Inr ?s'"
        using fut idle ny j up Raised True by (simp add: yield_def s1_def)
      have sj': "slot_ok chunks ?s' j"
        using fut adm ut rn Raised True
        by (simp add: slot_ok_def s1_def)
      have "pool_inv process_func chunks ?s'"
        by (rule build) (use sj' len in \<open>simp_all add: s1_def\<close>)
      moreover have "admitted ?s' = admitted s" "futures ?s' = futures s"
        "yielded ?s' = insert j (yielded s)" "main_thread ?s' = Idle \<or> main_thread ?s' = Sleeping j"
        by (simp_all add: s1_def)
      ultimately show ?thesis using run mono[of ?s'] by (intro exI[of _ ?s']) simp
    qed
  qed
qed

lemma slot_ok_staged:
  assumes "slot_ok chunks s i" and "stage (main_thread s) i = k" and "0 < k"
  shows "i \<in> admitted s \<and> i \<in> yielded s \<and>
         (\<exists>msg. futures s i = Some (Raised msg) \<and> rate_limit_signature msg \<and>
            unit_trace i (trace s) =
              [Acquired i, Called i (Raised msg)] @ take (k - 1) [Slept i 5, Acquired i]) \<and>
         results s ! i = PyNone"
proof -
  have adm: "i \<in> admitted s" using assms by (auto simp: slot_ok_def split: if_splits)
  then obtain out where fut: "futures s i = Some out"
    using assms by (cases "futures s i") (auto simp: slot_ok_def)
  have yi: "i \<in> yielded s" using assms adm fut by (auto simp: slot_ok_def split: if_splits)
  from assms adm fut yi show ?thesis by (auto simp: slot_ok_def)
qed

lemma slot_ok_staged_intro:
  assumes "i \<in> admitted s" "i \<in> yielded s" "futures s i = Some (Raised msg)"
    "rate_limit_signature msg" "stage (main_thread s) i = k" "0 < k"
    "unit_trace i (trace s) = [Acquired i, Called i (Raised msg)] @ take (k - 1) [Slept i 5, Acquired i]"
    "results s ! i = PyNone"
  shows "slot_ok chunks s i"
  using assms by (simp add: slot_ok_def)

lemma pool_inv_wake:
  assumes inv: "pool_inv process_func chunks s"
  shows "pool_inv process_func chunks (wake s)"
proof (cases "main_thread s")
  case (Sleeping j)
  let ?s' = "wake s"
  have eq: "?s' = s\<lparr>main_thread := Awake j, trace := trace s @ [Slept j 5]\<rparr>"
    using Sleeping by (simp add: wake_def)
  from inv Sleeping have j: "j < length chunks" by (simp add: pool_inv_def phase_ok_def)
  have "slot_ok chunks ?s' i" if i: "i < length chunks" for i
  proof (cases "i = j")
    case True
    from inv i have "slot_ok chunks s i" by (simp add: pool_inv_def)
    from slot_ok_staged[OF this, of 1] Sleeping True
    obtain msg where "i \<in> admitted s" "i \<in> yielded s" "futures s i = Some (Raised msg)"
      "rate_limit_signature msg" "unit_trace i (trace s) = [Acquired i, Called i (Raised msg)]"
      "results s ! i = PyNone"
      by auto
    then show ?thesis
      using True by (intro slot_ok_staged_intro[where k = 2 and msg = msg])
        (simp_all add: eq unit_trace_append unit_trace_simps)
  next
    case False
    from inv i have "slot_ok chunks s i" by (simp add: pool_inv_def)
    then show ?thesis
      by (rule slot_ok_frame) (use False Sleeping in \<open>simp_all add: eq unit_trace_append unit_trace_simps\<close>)
  qed
  with inv j show ?thesis by (simp add: pool_inv_def eq called_ok_other phase_ok_def)
qed (use inv in \<open>simp_all add: wake_def\<close>)

lemma pool_inv_readmit:
  assumes inv: "pool_inv process_func chunks s"
  shows "pool_inv process_func chunks (readmit s)"
proof (cases "main_thread s")
  case (Awake j)
  let ?s' = "readmit s"
  have eq: "?s' = s\<lparr>trace := trace s @ [Acquired j], main_thread := Admitted j\<rparr>"
    using Awake by (simp add: readmit_def rate_limit_block_def)
  from inv Awake have j: "j < length chunks" by (simp add: pool_inv_def phase_ok_def)
  have "slot_ok chunks ?s' i" if i: "i < length chunks" for i
  proof (cases "i = j")
    case True
    from inv i have "slot_ok chunks s i" by (simp add: pool_inv_def)
    from slot_ok_staged[OF this, of 2] Awake True
    obtain msg where "i \<in> admitted s" "i \<in> yielded s" "futures s i = Some (Raised msg)"
      "rate_limit_signature msg"
      "unit_trace i (trace s) = [Acquired i, Called i (Raised msg), Slept i 5]"
      "results s ! i = PyNone"
      by auto
    then show ?thesis
      using True by (intro slot_ok_staged_intro[where k = 3 and msg = msg])
        (simp_all add: eq unit_trace_append unit_trace_simps)
  next
    case False
    from inv i have "slot_ok chunks s i" by (simp add: pool_inv_def)
    then show ?thesis
      by (rule slot_ok_frame) (use False Awake in \<open>simp_all add: eq unit_trace_append unit_trace_simps\<close>)
  qed
  with inv j show ?thesis by (simp add: pool_inv_def eq called_ok_other phase_ok_def)
qed (use inv in \<open>simp_all add: readmit_def\<close>)

lemma pool_inv_rerun:
  assumes inv: "pool_inv process_func chunks s"
  shows "pool_inv process_func chunks (rerun process_func chunks s)"
proof (cases "main_thread s")
  case (Admitted j)
  obtain out w where call: "process_func (chunks ! j) (world s) = (out, w)"
    by (cases "process_func (chunks ! j) (world s)")
  let ?s' = "rerun process_func chunks s"
  let ?v = "unit_outcome (chunks ! j) [out]"
  have eq: "?s' = s\<lparr>world := w, trace := trace s @ [Called j out], main_thread := Idle,
      results := (results s)[j := ?v]\<rparr>"
    using Admitted call
    by (cases out) (simp_all add: rerun_def call_processor_def store_def unit_outcome_def)
  from inv Admitted have j: "j < length chunks" by (simp add: pool_inv_def phase_ok_def)
  from inv have len: "length (results s) = length chunks" by (simp add: pool_inv_def)
  have "slot_ok chunks ?s' i" if i: "i < length chunks" for i
  proof (cases "i = j")
    case True
    from inv i have "slot_ok chunks s i" by (simp add: pool_inv_def)
    from slot_ok_staged[OF this, of 3] Admitted True
    obtain msg where *: "i \<in> admitted s" "i \<in> yielded s" "futures s i = Some (Raised msg)"
      "rate_limit_signature msg"
      "unit_trace i (trace s) = [Acquired i, Called i (Raised msg), Slept i 5, Acquired i]"
      "results s ! i = PyNone"
      by auto
    have ut: "unit_trace i (trace ?s') =
        [Acquired i, Called i (Raised msg), Slept i 5, Acquired i, Called i out]"
      using * True by (simp add: eq unit_trace_append unit_trace_simps)
    have "settled (trace ?s') i (Raised msg)"
      unfolding settled_def using ut * by simp
    moreover have "attempts i (trace ?s') = [Raised msg, out]"
      using ut by (rule attempts_five)
    moreover have "results ?s' ! i = ?v" using True len j by (simp add: eq)
    moreover have "unit_outcome (chunks ! i) [Raised msg, out] = ?v"
      using True by (simp add: unit_outcome_def)
    ultimately show ?thesis
      using * by (simp add: slot_ok_def eq)
  next
    case False
    from inv i have "slot_ok chunks s i" by (simp add: pool_inv_def)
    then show ?thesis
      by (rule slot_ok_frame) (use False Admitted in \<open>simp_all add: eq unit_trace_append unit_trace_simps\<close>)
  qed
  moreover have "called_ok process_func chunks (Called j out)"
    using called_ok_process[of j chunks process_func "world s"] j call by simp
  ultimately show ?thesis using inv by (simp add: pool_inv_def eq phase_ok_def)
qed (use inv in \<open>simp_all add: rerun_def\<close>)

lemma tracked_nil: "tracked i s [] \<Longrightarrow> i \<in> yielded s"
  by (simp add: tracked_def unit_served_def)

lemma tracked_admit:
  assumes "tracked i s (Admit j # sched)" and "i < length chunks"
  shows "tracked i (admit chunks j s) sched"
  using assms by (auto simp: tracked_def unit_served_def admit_def rate_limit_block_def split: if_splits)

lemma tracked_run:
  assumes "tracked i s (Run j # sched)" and "i < length chunks"
  shows "tracked i (run process_func chunks j s) sched"
proof -
  obtain out w where call: "process_func (chunks ! j) (world s) = (out, w)"
    by (cases "process_func (chunks ! j) (world s)")
  show ?thesis
    using assms call
    by (auto simp: tracked_def unit_served_def run_def call_processor_def split: if_splits)
qed

lemma tracked_yield:
  assumes "tracked i s (Yield j # sched)" and "i < length chunks"
    and "admitted s' = admitted s" and "futures s' = futures s" and "yielded s \<subseteq> yielded s'"
    and "futures s j \<noteq> None \<and> j < length chunks \<longrightarrow> j \<in> yielded s'"
  shows "tracked i s' sched"
  using assms by (cases "i = j") (auto simp: tracked_def unit_served_def split: if_splits)

lemma tracked_main:
  assumes "tracked i s (a # sched)" and "a = Wake \<or> a = Readmit \<or> a = Rerun"
    and "admitted s' = admitted s" and "futures s' = futures s" and "yielded s' = yielded s"
  shows "tracked i s' sched"
  using assms by (auto simp: tracked_def unit_served_def split: if_splits)

lemma wake_frame: "admitted (wake s) = admitted s" "futures (wake s) = futures s" "yielded (wake s) = yielded s"
  by (simp_all add: wake_def split: phase.splits)

lemma readmit_frame:
  "admitted (readmit s) = admitted s" "futures (readmit s) = futures s" "yielded (readmit s) = yielded s"
  by (simp_all add: readmit_def rate_limit_block_def split: phase.splits)

lemma rerun_frame:
  "admitted (rerun process_func chunks s) = admitted s"
  "futures (rerun process_func chunks s) = futures s"
  "yielded (rerun process_func chunks s) = yielded s"
  by (simp_all add: rerun_def call_processor_def store_def split: phase.splits prod.splits result.splits)

lemma admit_main: "main_thread (admit chunks j s) = main_thread s"
  by (simp add: admit_def rate_limit_block_def)

lemma run_main: "main_thread (run process_func chunks j s) = main_thread s"
  by (simp add: run_def call_processor_def split: prod.splits)

lemma paced_Yield: "paced (Yield j # ms) \<longleftrightarrow> (\<exists>r. ms = Wake # Readmit # Rerun # r \<and> paced r)"
  by (induction "Yield j # ms" rule: paced.induct) auto

lemma paced_other [simp]: "\<not> paced (Wake # ms)" "\<not> paced (Readmit # ms)" "\<not> paced (Rerun # ms)"
    "\<not> paced (Admit j # ms)" "\<not> paced (Run j # ms)"
  by simp_all

lemma resumes_nil: "resumes p [] \<Longrightarrow> p = Idle"
  by (cases p) (simp_all add: resumes_def)

lemma resumes_Yield:
  assumes "resumes p (Yield j # ms)"
  shows "p = Idle \<and> resumes Idle ms \<and> resumes (Sleeping j) ms"
  using assms by (cases p) (auto simp: resumes_def paced_Yield)

lemma resumes_wake:
  assumes "resumes (main_thread s) (Wake # ms)"
  shows "resumes (main_thread (wake s)) ms"
  using assms by (cases "main_thread s") (auto simp: resumes_def wake_def)

lemma resumes_readmit:
  assumes "resumes (main_thread s) (Readmit # ms)"
  shows "resumes (main_thread (readmit s)) ms"
  using assms by (cases "main_thread s") (auto simp: resumes_def readmit_def rate_limit_block_def)

lemma resumes_rerun:
  assumes "resumes (main_thread s) (Rerun # ms)"
  shows "resumes (main_thread (rerun process_func chunks s)) ms"
  using assms
  by (cases "main_thread s")
    (auto simp: resumes_def rerun_def call_processor_def store_def split: prod.splits result.splits)

lemma run_pool_inv:
  assumes "pool_inv process_func chunks s"
    and "resumes (main_thread s) (filter of_main sched)"
    and "\<forall>i<length chunks. tracked i s sched"
  shows "\<exists>s'. run_pool process_func job_id operation_name chunks sched s = Inr s' \<and>
              pool_inv process_func chunks s' \<and> main_thread s' = Idle \<and>
              (\<forall>i<length chunks. i \<in> yielded s')"
  using assms
proof (induction sched arbitrary: s)
  case Nil
  then show ?case by (auto dest: resumes_nil tracked_nil)
next
  case (Cons a sched)
  note inv = \<open>pool_inv process_func chunks s\<close>
  note tr = \<open>\<forall>i<length chunks. tracked i s (a # sched)\<close>
  show ?case
  proof (cases a)
    case (Admit j)
    let ?s = "admit chunks j s"
    have "pool_inv process_func chunks ?s" using inv by (rule pool_inv_admit)
    moreover have "resumes (main_thread ?s) (filter of_main sched)"
      using Cons.prems(2) Admit by (simp add: admit_main)
    moreover have "\<forall>i<length chunks. tracked i ?s sched"
      using tr Admit by (auto intro: tracked_admit)
    ultimately show ?thesis using Cons.IH[of ?s] Admit by simp
  next
    case (Run j)
    let ?s = "run process_func chunks j s"
    have "pool_inv process_func chunks ?s" using inv by (rule pool_inv_run)
    moreover have "resumes (main_thread ?s) (filter of_main sched)"
      using Cons.prems(2) Run by (simp add: run_main)
    moreover have "\<forall>i<length chunks. tracked i ?s sched"
      using tr Run by (auto intro: tracked_run)
    ultimately show ?thesis using Cons.IH[of ?s] Run by simp
  next
    case (Yield j)
    from Cons.prems(2) Yield have "resumes (main_thread s) (Yield j # filter of_main sched)" by simp
    then have idle: "main_thread s = Idle" and r1: "resumes Idle (filter of_main sched)"
      and r2: "resumes (Sleeping j) (filter of_main sched)"
      by (auto dest: resumes_Yield)
    from pool_inv_yield[OF inv, of job_id operation_name j] obtain s1 where
      y: "yield job_id operation_name chunks j s = Inr s1"
      and inv1: "pool_inv process_func chunks s1"
      and fr: "admitted s1 = admitted s" "futures s1 = futures s" "yielded s \<subseteq> yielded s1"
      and got: "main_thread s = Idle \<and> futures s j \<noteq> None \<and> j < length chunks \<longrightarrow> j \<in> yielded s1"
      and ph: "main_thread s1 = main_thread s \<or> main_thread s = Idle \<and> main_thread s1 = Sleeping j"
      by (elim exE conjE)
    have "resumes (main_thread s1) (filter of_main sched)"
      using ph idle r1 r2 by auto
    moreover have "\<forall>i<length chunks. tracked i s1 sched"
    proof (intro allI impI)
      fix i assume i: "i < length chunks"
      with tr Yield have "tracked i s (Yield j # sched)" by simp
      then show "tracked i s1 sched"
        using i fr by (rule tracked_yield) (use got idle in simp)
    qed
    ultimately show ?thesis using Cons.IH[of s1] inv1 Yield y by simp
  next
    case Wake
    let ?s = "wake s"
    have "pool_inv process_func chunks ?s" using inv by (rule pool_inv_wake)
    moreover have "resumes (main_thread ?s) (filter of_main sched)"
      using Cons.prems(2) Wake by (simp add: resumes_wake)
    moreover have "\<forall>i<length chunks. tracked i ?s sched"
      using tr Wake by (auto intro: tracked_main[where a = Wake] simp: wake_frame)
    ultimately show ?thesis using Cons.IH[of ?s] Wake by simp
  next
    case Readmit
    let ?s = "readmit s"
    have "pool_inv process_func chunks ?s" using inv by (rule pool_inv_readmit)
    moreover have "resumes (main_thread ?s) (filter of_main sched)"
      using Cons.prems(2) Readmit by (simp add: resumes_readmit)
    moreover have "\<forall>i<length chunks. tracked i ?s sched"
      using tr Readmit by (auto intro: tracked_main[where a = Readmit] simp: readmit_frame)
    ultimately show ?thesis using Cons.IH[of ?s] Readmit by simp
  next
    case Rerun
    let ?s = "rerun process_func chunks s"
    have "pool_inv process_func chunks ?s" using inv by (rule pool_inv_rerun)
    moreover have "resumes (main_thread ?s) (filter of_main sched)"
      using Cons.prems(2) Rerun by (simp add: resumes_rerun)
    moreover have "\<forall>i<length chunks. tracked i ?s sched"
      using tr Rerun by (auto intro: tracked_main[where a = Rerun] simp: rerun_frame)
    ultimately show ?thesis using Cons.IH[of ?s] Rerun by simp
  qed
qed

lemma attempts_called: "out \<in> set (attempts i evs) \<Longrightarrow> Called i out \<in> set evs"
  by (auto simp: attempts_def unit_trace_def split: event.splits)

lemma pool_inv_initial:
  "pool_inv process_func chunks
     \<lparr>world = w, admitted = {}, futures = Map.empty, yielded = {}, main_thread = Idle,
      results = replicate (length chunks) PyNone, completed = 0, progress_tracker = tr,
      trace = []\<rparr>"
  by (simp add: pool_inv_def phase_ok_def slot_ok_def unit_trace_def)

lemma dispatch_final:
  assumes "0 < max_workers" and "complete_schedule (length chunks) sched"
  shows "\<exists>s. process_chunks_parallel process_func max_workers job_id operation_name chunks sched w tr = Inr s \<and>
             length (results s) = length chunks \<and>
             (\<forall>i<length chunks. \<exists>out. settled (trace s) i out \<and>
                results s ! i = unit_outcome (chunks ! i) (attempts i (trace s))) \<and>
             (\<forall>ev\<in>set (trace s). called_ok process_func chunks ev)"
proof -
  let ?s0 = "\<lparr>world = w, admitted = {}, futures = Map.empty, yielded = {}, main_thread = Idle,
      results = replicate (length chunks) PyNone, completed = 0, progress_tracker = tr,
      trace = []\<rparr>"
  have "pool_inv process_func chunks ?s0" by (rule pool_inv_initial)
  moreover have "resumes (main_thread ?s0) (filter of_main sched)"
    using assms(2) by (simp add: complete_schedule_def resumes_def)
  moreover have "\<forall>i<length chunks. tracked i ?s0 sched"
    using assms(2) by (simp add: complete_schedule_def tracked_def)
  ultimately have "\<exists>s'. run_pool process_func job_id operation_name chunks sched ?s0 = Inr s' \<and>
      pool_inv process_func chunks s' \<and> main_thread s' = Idle \<and> (\<forall>i<length chunks. i \<in> yielded s')"
    by (rule run_pool_inv)
  then obtain s where run: "run_pool process_func job_id operation_name chunks sched ?s0 = Inr s"
    and inv: "pool_inv process_func chunks s" and idle: "main_thread s = Idle"
    and all: "\<forall>i<length chunks. i \<in> yielded s"
    by (elim exE conjE)
  have "\<exists>out. settled (trace s) i out \<and>
      results s ! i = unit_outcome (chunks ! i) (attempts i (trace s))"
    if i: "i < length chunks" for i
  proof -
    from inv i have sl: "slot_ok chunks s i" by (simp add: pool_inv_def)
    from all i have y: "i \<in> yielded s" by simp
    have adm: "i \<in> admitted s" using sl y by (auto simp: slot_ok_def split: if_splits)
    then obtain out where fut: "futures s i = Some out"
      using sl y by (cases "futures s i") (auto simp: slot_ok_def)
    from sl y adm fut idle show ?thesis by (auto simp: slot_ok_def)
  qed
  moreover have "process_chunks_parallel process_func max_workers job_id operation_name chunks sched w tr = Inr s"
    using run assms(1) by (simp add: process_chunks_parallel_def)
  ultimately show ?thesis
    using inv by (intro exI[of _ s]) (simp add: pool_inv_def)
qed

lemma settled_cases:
  assumes "settled evs i out"
  obtains (returned) r where "out = Returned r" "unit_trace i evs = [Acquired i, Called i (Returned r)]"
      "attempts i evs = [Returned r]"
  | (failed) msg where "out = Raised msg" "\<not> rate_limit_signature msg"
      "unit_trace i evs = [Acquired i, Called i (Raised msg)]" "attempts i evs = [Raised msg]"
  | (retry) msg out2 where "out = Raised msg" "rate_limit_signature msg"
      "unit_trace i evs = [Acquired i, Called i (Raised msg), Slept i 5, Acquired i, Called i out2]"
      "attempts i evs = [Raised msg, out2]"
  using assms unfolding settled_def by (auto simp: attempts_two attempts_five)

lemma unit_outcome_fallback:
  "unit_outcome chunk [Raised msg] = PyStr chunk"
  "unit_outcome chunk [out, Raised msg] = PyStr chunk"
  "\<not> truthy r \<Longrightarrow> unit_outcome chunk [Returned r] = PyStr chunk"
  by (simp_all add: unit_outcome_def keep_def)

section \<open>Lemmas about the OCR pipeline\<close>

lemma ocr_page_frame:
  "fst (fst (ocr_page enc ext job_id n (index, img) s)) = index"
  "page_futures (snd (ocr_page enc ext job_id n (index, img) s)) = page_futures s"
  "pages_yielded (snd (ocr_page enc ext job_id n (index, img) s)) = pages_yielded s"
  "extracted_texts (snd (ocr_page enc ext job_id n (index, img) s)) = extracted_texts s"
  by (auto simp: ocr_page_def split: sum.splits result.splits prod.splits)

lemma page_slot_ok_frame:
  assumes "page_slot_ok enc ext job_id images s i"
    and "page_futures s' i = page_futures s i"
    and "i \<in> pages_yielded s' \<longleftrightarrow> i \<in> pages_yielded s"
    and "extracted_texts s' ! i = extracted_texts s ! i"
  shows "page_slot_ok enc ext job_id images s' i"
proof (cases "page_futures s i")
  case None
  with assms show ?thesis by (simp add: page_slot_ok_def)
next
  case (Some r)
  with assms show ?thesis by (simp add: page_slot_ok_def)
qed

lemma ocr_inv_work:
  assumes "ocr_inv enc ext job_id images s"
  shows "ocr_inv enc ext job_id images (ocr_work enc ext job_id images j s)"
proof (cases "j < length images \<and> page_futures s j = None")
  case False
  with assms show ?thesis by (auto simp: ocr_work_def)
next
  case True
  obtain r s' where step: "ocr_page enc ext job_id (length images) (j, images ! j) s = (r, s')"
    by (cases "ocr_page enc ext job_id (length images) (j, images ! j) s")
  with ocr_page_frame[of enc ext job_id "length images" j "images ! j" s]
  have fr: "fst r = j" "page_futures s' = page_futures s" "pages_yielded s' = pages_yielded s"
    "extracted_texts s' = extracted_texts s" by simp_all
  have eq: "ocr_work enc ext job_id images j s = s'\<lparr>page_futures := (page_futures s)(j \<mapsto> r)\<rparr>"
    using True step fr by (simp add: ocr_work_def)
  have "page_slot_ok enc ext job_id images (ocr_work enc ext job_id images j s) i"
    if i: "i < length images" for i
  proof (cases "i = j")
    case True
    from assms that have "page_slot_ok enc ext job_id images s i" by (simp add: ocr_inv_def)
    with True \<open>j < length images \<and> page_futures s j = None\<close> have "j \<notin> pages_yielded s"
      by (simp add: page_slot_ok_def)
    moreover have "\<exists>v. r = fst (ocr_page enc ext job_id (length images) (j, images ! j) v)"
      using step by (intro exI[of _ s]) simp
    ultimately show ?thesis using True fr by (simp add: eq page_slot_ok_def)
  next
    case False
    from assms that have "page_slot_ok enc ext job_id images s i" by (simp add: ocr_inv_def)
    then show ?thesis
      by (rule page_slot_ok_frame) (use False fr in \<open>simp_all add: eq\<close>)
  qed
  moreover have "length (extracted_texts (ocr_work enc ext job_id images j s)) = length images"
    using assms fr by (simp add: eq ocr_inv_def)
  moreover have "dom (page_futures (ocr_work enc ext job_id images j s)) \<subseteq> {..<length images}"
    using assms True by (auto simp: eq ocr_inv_def)
  ultimately show ?thesis by (simp add: ocr_inv_def)
qed

lemma ocr_inv_complete:
  assumes "ocr_inv enc ext job_id images s"
  shows "ocr_inv enc ext job_id images (ocr_complete j s)"
proof (cases "\<exists>r. page_futures s j = Some r \<and> j \<notin> pages_yielded s")
  case False
  then have "ocr_complete j s = s" by (auto simp: ocr_complete_def split: option.splits)
  with assms show ?thesis by simp
next
  case True
  then obtain r where fut: "page_futures s j = Some r" and ny: "j \<notin> pages_yielded s" by blast
  from assms fut have j: "j < length images" by (auto simp: ocr_inv_def)
  with assms have "page_slot_ok enc ext job_id images s j" by (simp add: ocr_inv_def)
  with fut have r: "fst r = j" by (simp add: page_slot_ok_def)
  have eq: "ocr_complete j s = s\<lparr>pages_yielded := insert j (pages_yielded s),
      extracted_texts := (extracted_texts s)[j := PyStr (snd r)]\<rparr>"
    using fut ny r by (cases r) (simp add: ocr_complete_def)
  from assms have len: "length (extracted_texts s) = length images" by (simp add: ocr_inv_def)
  have "page_slot_ok enc ext job_id images (ocr_complete j s) i" if i: "i < length images" for i
  proof (cases "i = j")
    case True
    from assms j have "page_slot_ok enc ext job_id images s j" by (simp add: ocr_inv_def)
    with fut have "\<exists>v. r = fst (ocr_page enc ext job_id (length images) (j, images ! j) v)"
      by (simp add: page_slot_ok_def)
    with True fut r len j show ?thesis by (simp add: eq page_slot_ok_def)
  next
    case False
    from assms that have "page_slot_ok enc ext job_id images s i" by (simp add: ocr_inv_def)
    then show ?thesis
      by (rule page_slot_ok_frame) (use False in \<open>simp_all add: eq\<close>)
  qed
  with assms len show ?thesis by (simp add: ocr_inv_def eq)
qed

lemma ocr_work_eq:
  "ocr_work enc ext job_id images j s =
     (if j < length images \<and> page_futures s j = None
      then (snd (ocr_page enc ext job_id (length images) (j, images ! j) s))
             \<lparr>page_futures := (page_futures s)(j \<mapsto>
                fst (ocr_page enc ext job_id (length images) (j, images ! j) s))\<rparr>
      else s)"
  by (simp add: ocr_work_def case_prod_beta ocr_page_frame(2))

lemma ocr_mono:
  "page_futures s i \<noteq> None \<Longrightarrow> page_futures (ocr_work enc ext job_id images j s) i \<noteq> None"
  "pages_yielded (ocr_work enc ext job_id images j s) = pages_yielded s"
  "j < length images \<Longrightarrow> page_futures (ocr_work enc ext job_id images j s) j \<noteq> None"
  by (simp_all add: ocr_work_eq ocr_page_frame(3))

lemma ocr_complete_mono:
  "page_futures (ocr_complete j s) = page_futures s"
  "pages_yielded s \<subseteq> pages_yielded (ocr_complete j s)"
  "page_futures s j \<noteq> None \<Longrightarrow> j \<in> pages_yielded (ocr_complete j s)"
  by (cases "page_futures s j"; auto simp: ocr_complete_def)+

lemma run_ocr_inv:
  assumes "ocr_inv enc ext job_id images s"
  shows "ocr_inv enc ext job_id images (run_ocr enc ext job_id images sched s) \<and>
         (\<forall>i<length images.
            i \<in> pages_yielded s \<or> (page_futures s i \<noteq> None \<and> Complete i \<in> set sched) \<or> served i sched
            \<longrightarrow> i \<in> pages_yielded (run_ocr enc ext job_id images sched s))"
  using assms
proof (induction sched arbitrary: s)
  case Nil
  then show ?case by (simp add: served_def)
next
  case (Cons x sched)
  show ?case
  proof (cases x)
    case (Work j)
    let ?s1 = "ocr_work enc ext job_id images j s"
    have "ocr_inv enc ext job_id images ?s1" using Cons.prems by (rule ocr_inv_work)
    from Cons.IH[OF this] have
      inv: "ocr_inv enc ext job_id images (run_ocr enc ext job_id images sched ?s1)"
      and ih: "\<forall>i<length images.
            i \<in> pages_yielded ?s1 \<or> (page_futures ?s1 i \<noteq> None \<and> Complete i \<in> set sched) \<or> served i sched
            \<longrightarrow> i \<in> pages_yielded (run_ocr enc ext job_id images sched ?s1)"
      by simp_all
    have "i \<in> pages_yielded (run_ocr enc ext job_id images sched ?s1)" if i: "i < length images"
      and h: "i \<in> pages_yielded s \<or> (page_futures s i \<noteq> None \<and> Complete i \<in> set (x # sched)) \<or> served i (x # sched)" for i
    proof -
      have "i \<in> pages_yielded ?s1 \<or> (page_futures ?s1 i \<noteq> None \<and> Complete i \<in> set sched) \<or> served i sched"
        using h i Work ocr_mono(1)[of s i enc ext job_id images j] ocr_mono(3)[of j images enc ext job_id s]
        by (auto simp: ocr_mono(2) served_def split: if_splits)
      with ih i show ?thesis by blast
    qed
    with inv Work show ?thesis by simp
  next
    case (Complete j)
    let ?s1 = "ocr_complete j s"
    have "ocr_inv enc ext job_id images ?s1" using Cons.prems by (rule ocr_inv_complete)
    from Cons.IH[OF this] have
      inv: "ocr_inv enc ext job_id images (run_ocr enc ext job_id images sched ?s1)"
      and ih: "\<forall>i<length images.
            i \<in> pages_yielded ?s1 \<or> (page_futures ?s1 i \<noteq> None \<and> Complete i \<in> set sched) \<or> served i sched
            \<longrightarrow> i \<in> pages_yielded (run_ocr enc ext job_id images sched ?s1)"
      by simp_all
    have "i \<in> pages_yielded (run_ocr enc ext job_id images sched ?s1)" if i: "i < length images"
      and h: "i \<in> pages_yielded s \<or> (page_futures s i \<noteq> None \<and> Complete i \<in> set (x # sched)) \<or> served i (x # sched)" for i
    proof -
      have "i \<in> pages_yielded ?s1 \<or> (page_futures ?s1 i \<noteq> None \<and> Complete i \<in> set sched) \<or> served i sched"
        using h i Complete ocr_complete_mono(2)[of s j] ocr_complete_mono(3)[of s j]
        by (auto simp: ocr_complete_mono(1) served_def split: if_splits)
      with ih i show ?thesis by blast
    qed
    with inv Complete show ?thesis by simp
  qed
qed

lemma truthy_texts_PyStr: "truthy_texts (map PyStr ts) = filter (\<lambda>t. t \<noteq> []) ts"
  by (induction ts) (simp_all add: truthy_texts_def)

lemma ocr_page_failure:
  assumes "(\<exists>e. enc img = Raised e) \<or> (\<exists>b e. enc img = Returned b \<and> fst (ext b (ocr_world v)) = Raised e)"
  shows "fst (ocr_page enc ext job_id n (index, img) v) = (index, [])"
  using assms
  by (cases "update_progress job_id (int (index + 1)) (int n) (page_status index n) (ocr_tracker v)")
     (auto simp: ocr_page_def split: result.splits prod.splits)

lemma ocr_page_pure:
  assumes f: "\<forall>b v. fst (ext b v) = f b" and i: "index < n"
  shows "fst (ocr_page enc ext job_id n (index, img) s) = (index, page_text enc f img)"
proof -
  have "\<exists>tr'. update_progress job_id (int (index + 1)) (int n) (page_status index n) (ocr_tracker s) = Inr tr'"
    by (rule update_progress_ok) (use i in simp_all)
  then obtain tr' where up: "update_progress job_id (int (index + 1)) (int n) (page_status index n) (ocr_tracker s) = Inr tr'"
    by (elim exE)
  show ?thesis
  proof (cases "enc img")
    case (Raised e)
    with up show ?thesis by (simp add: ocr_page_def page_text_def)
  next
    case (Returned b)
    obtain out w' where call: "ext b (ocr_world s) = (out, w')" by (cases "ext b (ocr_world s)")
    with f have "f b = out" by (metis fst_conv)
    with up Returned call show ?thesis
      by (cases out) (simp_all add: ocr_page_def page_text_def)
  qed
qed

lemma perform_ocr_final:
  assumes fair: "\<forall>i<length images. served i sched"
  shows "\<exists>ts. length ts = length images \<and>
           (\<forall>i<length images. \<exists>v. (i, ts ! i) =
              fst (ocr_page enc ext job_id (length images) (i, images ! i) v)) \<and>
           fst (perform_ocr enc ext job_id images sched w tr) =
             py_join blank_line (filter (\<lambda>t. t \<noteq> []) ts)"
proof -
  let ?n = "length images"
  let ?init = "\<lparr>ocr_world = w, ocr_tracker = tr, page_futures = Map.empty, pages_yielded = {},
                 extracted_texts = replicate ?n PyNone\<rparr>"
  let ?s = "run_ocr enc ext job_id images sched ?init"
  have "ocr_inv enc ext job_id images ?init"
    by (simp add: ocr_inv_def page_slot_ok_def)
  from run_ocr_inv[OF this, of sched] fair
  have inv: "ocr_inv enc ext job_id images ?s" and all: "\<forall>i<?n. i \<in> pages_yielded ?s"
    by simp_all
  define ts where "ts = map (\<lambda>i. snd (the (page_futures ?s i))) [0..<?n]"
  have slot: "(\<exists>v. (i, ts ! i) = fst (ocr_page enc ext job_id ?n (i, images ! i) v)) \<and>
      extracted_texts ?s ! i = PyStr (ts ! i)" if i: "i < ?n" for i
  proof -
    from inv i have ok: "page_slot_ok enc ext job_id images ?s i" by (simp add: ocr_inv_def)
    from all i have y: "i \<in> pages_yielded ?s" by simp
    show ?thesis
    proof (cases "page_futures ?s i")
      case None
      with ok y show ?thesis by (simp add: page_slot_ok_def)
    next
      case (Some r)
      with ok y have "fst r = i" and ex: "\<exists>v. r = fst (ocr_page enc ext job_id ?n (i, images ! i) v)"
        and tx: "extracted_texts ?s ! i = PyStr (snd r)"
        by (simp_all add: page_slot_ok_def)
      moreover have "ts ! i = snd r" using i Some by (simp add: ts_def)
      ultimately show ?thesis by (metis prod.collapse)
    qed
  qed
  have "extracted_texts ?s = map PyStr ts"
  proof (rule nth_equalityI)
    show "length (extracted_texts ?s) = length (map PyStr ts)"
      using inv by (simp add: ocr_inv_def ts_def)
  next
    fix i assume "i < length (extracted_texts ?s)"
    with inv have i: "i < ?n" by (simp add: ocr_inv_def)
    with slot[OF i] show "extracted_texts ?s ! i = map PyStr ts ! i" by (simp add: ts_def)
  qed
  then have "fst (perform_ocr enc ext job_id images sched w tr) =
      py_join blank_line (filter (\<lambda>t. t \<noteq> []) ts)"
    by (simp add: perform_ocr_def Let_def truthy_texts_PyStr)
  moreover have "length ts = ?n" by (simp add: ts_def)
  moreover from slot have "\<forall>i<?n. \<exists>v. (i, ts ! i) = fst (ocr_page enc ext job_id ?n (i, images ! i) v)"
    by blast
  ultimately show ?thesis by blast
qed

section \<open>The claims\<close>

subsection \<open>The chunker\<close>



text \<open>
  C6. \<open>chunk_text("", S)\<close> does not return the empty list: for every limit \<open>S\<close> it returns
  the list of one empty chunk. \<open>"".split("\n\n")\<close> is the list of the empty paragraph, the
  loop leaves the buffer \<open>"\n\n"\<close> (or a tab when \<open>S\<close> is negative), and the guard
  \<open>if current_chunk:\<close> of line 80, which is there to skip an empty chunk, tests the buffer
  before \<open>strip()\<close> and lets it through. (The other half of the claim holds, one chunk
  \<open>T.strip()\<close> for a text within the limit and without a blank line: \<open>chunk_text_single\<close>.)
\<close>

theorem chunk_text_empty_text: "chunk_text [] S = [[]]"
  by (simp add: chunk_text_def flush_def too_long_def sentences_of_def blank_line_def
      py_strip_def isspace_consts)

text \<open>
  C10. Every chunk that \<open>chunk_text(T, S)\<close> returns equals its own \<open>strip()\<close>: no chunk
  begins or ends with white space.
\<close>

theorem chunk_text_stripped: "c \<in> set (chunk_text T S) \<Longrightarrow> py_strip c = c"
proof -
  have "all_stripped (fst (paragraph_loop S (py_split blank_line T) ([], [])))"
    by (rule stripped_paragraph_loop) (simp add: all_stripped_def)
  then have "all_stripped (chunk_text T S)"
    unfolding chunk_text_def by (rule stripped_flush)
  then show "c \<in> set (chunk_text T S) \<Longrightarrow> py_strip c = c"
    by (simp add: all_stripped_def)
qed

theorem chunk_text_stripped_witness:
  "[97, 98] \<in> set (chunk_text [32, 97, 98, 32] 10) \<and> py_strip [97, 98] = [97, 98 :: nat]"
  using chunk_text_stripped[of "[97, 98]" "[32, 97, 98, 32]" 10] chunk_text_single[of "[32, 97, 98, 32]" 10]
  by (simp add: blank_line_def newline_def py_strip_def py_isspace_def)

text \<open>
  C2. The chunks do not reconstruct the text: in a paragraph longer than the limit the
  danda that separates two sentences is replaced by a tab, or lost at the end of a chunk,
  although the tab and the blank line are put back after the pieces they separate. For the
  text \<open>a\<close>, danda, \<open>b\<close> and the limit 2 the chunks are \<open>a\<close> and \<open>b\<close>. (Every other
  code point that is not white space is kept: \<open>chunk_text_keeps_visible\<close>.)
\<close>

theorem chunk_text_drops_danda: "chunk_text [97, danda, 98] 2 = [[97], [98]]"
  by (simp add: chunk_text_def flush_def too_long_def sentences_of_def blank_line_def
      newline_def tab_def danda_def py_strip_def py_isspace_def)

subsection \<open>Progress\<close>

text \<open>
  C7. The stored percentage is not always \<open>floor(100 * current / total)\<close>: for 29 of 100
  the quotient rounds to a binary64 value below 0.29, its product with 100 rounds to a
  value below 29, and the snapshot holds 28. (The other parts of the claim hold: the
  percentage is 0 without a total, it lies between 0 and 100 when
  \<open>0 \<le> current \<le> total\<close>, and without a job identifier the store is unchanged:
  \<open>percentage_of_no_total\<close>, \<open>percentage_of_bound\<close>, \<open>update_progress_unset\<close>.)
\<close>

theorem update_progress_truncates:
  "update_progress (Some (ascii ''job'')) 29 100 (ascii ''Processing: 29/100'') Map.empty =
     Inr [ascii ''job'' \<mapsto> \<lparr>current = 29, total = 100, status = ascii ''Processing: 29/100'', percentage = 28\<rparr>]"
  by (simp add: update_progress_def ascii_def percentage_of_def py_truediv_def round_to_double_def
      floor_log2_def bit_length.simps round_half_even_def signed_def float_mul_def
      float_of_int_exact_def py_int_def Let_def)

subsection \<open>The dispatcher\<close>

text \<open>
  C1, as amended. When \<open>max_workers\<close> is positive, then for every list of units, every
  processor and every complete schedule of the pool, \<open>process_chunks_parallel\<close> returns,
  and its result has the length of \<open>chunks\<close>; the entry at index \<open>i\<close> is the outcome of the
  calls made for \<open>chunks[i]\<close>, whatever the order in which the tasks ran and completed and
  whatever ran during a retry. Each entry is the unit itself or a non-empty value that the
  processor returned for that unit. For a processor whose outcome depends on the chunk
  alone, the result is the same list for every schedule.
\<close>

theorem process_chunks_parallel_ordered:
  assumes "0 < max_workers" and "complete_schedule (length chunks) sched"
  shows "\<exists>s. process_chunks_parallel process_func max_workers job_id operation_name chunks sched w tr = Inr s \<and>
             length (results s) = length chunks \<and>
             (\<forall>i<length chunks.
                attempts i (trace s) \<noteq> [] \<and>
                results s ! i = unit_outcome (chunks ! i) (attempts i (trace s)) \<and>
                (results s ! i = PyStr (chunks ! i) \<or>
                 truthy (results s ! i) \<and> Returned (results s ! i) \<in> set (attempts i (trace s)))) \<and>
             ((\<forall>c v. fst (process_func c v) = f c) \<longrightarrow>
                results s = map (\<lambda>c. unit_outcome c [f c]) chunks)"
proof -
  from dispatch_final[OF assms, of process_func job_id operation_name w tr] obtain s where
    run: "process_chunks_parallel process_func max_workers job_id operation_name chunks sched w tr = Inr s"
    and len: "length (results s) = length chunks"
    and fin: "\<forall>i<length chunks. \<exists>out. settled (trace s) i out \<and>
                results s ! i = unit_outcome (chunks ! i) (attempts i (trace s))"
    and called: "\<forall>ev\<in>set (trace s). called_ok process_func chunks ev"
    by (elim exE conjE)
  have slot: "attempts i (trace s) \<noteq> [] \<and>
      results s ! i = unit_outcome (chunks ! i) (attempts i (trace s)) \<and>
      (results s ! i = PyStr (chunks ! i) \<or>
       truthy (results s ! i) \<and> Returned (results s ! i) \<in> set (attempts i (trace s)))"
    if i: "i < length chunks" for i
  proof -
    from fin i obtain out where st: "settled (trace s) i out"
      and r: "results s ! i = unit_outcome (chunks ! i) (attempts i (trace s))" by blast
    from st show ?thesis
    proof (cases rule: settled_cases)
      case (returned v)
      with r show ?thesis by (simp add: unit_outcome_def keep_def)
    next
      case (failed msg)
      with r show ?thesis by (simp add: unit_outcome_def)
    next
      case (retry msg out2)
      with r show ?thesis by (cases out2) (simp_all add: unit_outcome_def keep_def)
    qed
  qed
  have pure: "results s = map (\<lambda>c. unit_outcome c [f c]) chunks"
    if f: "\<forall>c v. fst (process_func c v) = f c"
  proof (rule nth_equalityI)
    show "length (results s) = length (map (\<lambda>c. unit_outcome c [f c]) chunks)"
      using len by simp
  next
    fix i assume "i < length (results s)"
    with len have i: "i < length chunks" by simp
    have "last (attempts i (trace s)) \<in> set (attempts i (trace s))"
      using slot[OF i] by simp
    then have "Called i (last (attempts i (trace s))) \<in> set (trace s)"
      by (rule attempts_called)
    with called f have "last (attempts i (trace s)) = f (chunks ! i)"
      by (auto simp: called_ok_def)
    with slot[OF i] have "results s ! i = unit_outcome (chunks ! i) [f (chunks ! i)]"
      by (simp add: unit_outcome_def)
    with i show "results s ! i = map (\<lambda>c. unit_outcome c [f c]) chunks ! i" by simp
  qed
  from slot have "\<forall>i<length chunks.
      attempts i (trace s) \<noteq> [] \<and>
      results s ! i = unit_outcome (chunks ! i) (attempts i (trace s)) \<and>
      (results s ! i = PyStr (chunks ! i) \<or>
       truthy (results s ! i) \<and> Returned (results s ! i) \<in> set (attempts i (trace s)))"
    by blast
  moreover from pure have "(\<forall>c v. fst (process_func c v) = f c) \<longrightarrow>
      results s = map (\<lambda>c. unit_outcome c [f c]) chunks"
    by blast
  ultimately show ?thesis using run len by blast
qed

theorem process_chunks_parallel_ordered_witness:
  "(0::int) < 5 \<and>
   complete_schedule 2
     [Admit 0, Admit 1, Run 1, Yield 1, Wake, Run 0, Readmit, Rerun, Yield 0, Wake, Readmit, Rerun] \<and>
   (\<exists>s. process_chunks_parallel
          (\<lambda>c w. (if even w then Raised (ascii ''429'') else Returned (PyStr (c @ [33])), Suc w))
          5 None [] [[97], [98]]
          [Admit 0, Admit 1, Run 1, Yield 1, Wake, Run 0, Readmit, Rerun, Yield 0, Wake, Readmit, Rerun]
          (0::nat) Map.empty = Inr s \<and>
        trace s = [Acquired 0, Acquired 1, Called 1 (Raised (ascii ''429'')), Slept 1 5,
                   Called 0 (Returned (PyStr [97, 33])), Acquired 1, Called 1 (Raised (ascii ''429''))] \<and>
        results s = [PyStr [97, 33], PyStr [98]])"
  using process_chunks_parallel_ordered[of 5 "[[97], [98]]"
      "[Admit 0, Admit 1, Run 1, Yield 1, Wake, Run 0, Readmit, Rerun, Yield 0, Wake, Readmit, Rerun]"
      "\<lambda>c w. (if even w then Raised (ascii ''429'') else Returned (PyStr (c @ [33])), Suc w)"
      None "[]" 0 Map.empty]
  by (simp add: complete_schedule_def unit_served_def numeral_2_eq_2 less_Suc_eq
      process_chunks_parallel_def admit_def run_def yield_def wake_def readmit_def rerun_def
      rate_limit_block_def call_processor_def update_progress_def store_def keep_def
      rate_limit_signature_def ascii_def py_lower_def lower_codepoint_def)

text \<open>
  C1 as stated fails: it has no condition on \<open>max_workers\<close>, and with \<open>max_workers = 0\<close> the
  call raises \<open>ValueError\<close> when it makes the pool and returns no sequence, for a list of
  one unit and for the empty list alike.
\<close>

theorem process_chunks_parallel_no_workers:
  "complete_schedule 1 [Admit 0, Run 0, Yield 0, Wake, Readmit, Rerun] \<and>
   process_chunks_parallel (\<lambda>c w. (Returned (PyStr (c @ [33])), w)) 0 None [] [[97]]
     [Admit 0, Run 0, Yield 0, Wake, Readmit, Rerun] () Map.empty = Inl ValueError \<and>
   process_chunks_parallel (\<lambda>c w. (Returned (PyStr (c @ [33])), w)) 0 None [] [] [] () Map.empty
     = Inl ValueError"
  by (simp add: complete_schedule_def unit_served_def process_chunks_parallel_def)

text \<open>
  C3. When the first call for a unit fails with a message of the rate limit class (it
  contains \<open>429\<close>, or \<open>quota\<close> or \<open>rate\<close> in any case), the dispatcher sleeps five seconds
  and then calls the processor on that unit once more, through the rate limiter, and makes
  no further call: the events of that unit are, in this order, the rate limiter, the call
  that failed, the sleep of five seconds, the rate limiter and the second call, and nothing
  else, whatever the workers do for the other units in between. When the retry fails too,
  the result at that index is the unit itself. So a processor that always fails with
  \<open>429 quota exceeded\<close> is called exactly twice for every unit, and the result is the list
  of the units. This holds for a positive \<open>max_workers\<close> and every complete schedule.
\<close>

theorem rate_limit_retry_once:
  assumes "0 < max_workers" and "complete_schedule (length chunks) sched"
  shows "\<exists>s. process_chunks_parallel process_func max_workers job_id operation_name chunks sched w tr = Inr s \<and>
             (\<forall>i<length chunks. \<forall>msg rest.
                attempts i (trace s) = Raised msg # rest \<and> rate_limit_signature msg \<longrightarrow>
                (\<exists>out. rest = [out] \<and>
                   unit_trace i (trace s) =
                     [Acquired i, Called i (Raised msg), Slept i 5, Acquired i, Called i out] \<and>
                   ((\<exists>retry_error. out = Raised retry_error) \<longrightarrow> results s ! i = PyStr (chunks ! i)))) \<and>
             ((\<forall>c v. fst (process_func c v) = Raised (ascii ''429 quota exceeded'')) \<longrightarrow>
                (\<forall>i<length chunks. length (attempts i (trace s)) = 2) \<and>
                results s = map PyStr chunks)"
proof -
  from dispatch_final[OF assms, of process_func job_id operation_name w tr] obtain s where
    run: "process_chunks_parallel process_func max_workers job_id operation_name chunks sched w tr = Inr s"
    and len: "length (results s) = length chunks"
    and fin: "\<forall>i<length chunks. \<exists>out. settled (trace s) i out \<and>
                results s ! i = unit_outcome (chunks ! i) (attempts i (trace s))"
    and called: "\<forall>ev\<in>set (trace s). called_ok process_func chunks ev"
    by (elim exE conjE)
  have retry: "\<exists>out. rest = [out] \<and>
      unit_trace i (trace s) = [Acquired i, Called i (Raised msg), Slept i 5, Acquired i, Called i out] \<and>
      ((\<exists>retry_error. out = Raised retry_error) \<longrightarrow> results s ! i = PyStr (chunks ! i))"
    if i: "i < length chunks" and a: "attempts i (trace s) = Raised msg # rest"
      and rl: "rate_limit_signature msg" for i msg rest
  proof -
    from fin i obtain out where st: "settled (trace s) i out"
      and r: "results s ! i = unit_outcome (chunks ! i) (attempts i (trace s))" by blast
    from st show ?thesis
    proof (cases rule: settled_cases)
      case (returned v)
      with a show ?thesis by simp
    next
      case (failed m)
      with a rl show ?thesis by simp
    next
      case (retry m out2)
      with a r show ?thesis by (auto simp: unit_outcome_fallback)
    qed
  qed
  have always: "(\<forall>i<length chunks. length (attempts i (trace s)) = 2) \<and> results s = map PyStr chunks"
    if f: "\<forall>c v. fst (process_func c v) = Raised (ascii ''429 quota exceeded'')"
  proof -
    have sig: "rate_limit_signature (ascii ''429 quota exceeded'')"
      by (simp add: rate_limit_signature_def ascii_def)
    have each: "length (attempts i (trace s)) = 2 \<and> results s ! i = PyStr (chunks ! i)"
      if i: "i < length chunks" for i
    proof -
      have all: "out = Raised (ascii ''429 quota exceeded'')" if "out \<in> set (attempts i (trace s))" for out
      proof -
        from that have "Called i out \<in> set (trace s)" by (rule attempts_called)
        with called f show ?thesis by (auto simp: called_ok_def)
      qed
      from fin i obtain out where st: "settled (trace s) i out"
        and r: "results s ! i = unit_outcome (chunks ! i) (attempts i (trace s))" by blast
      from st show ?thesis
      proof (cases rule: settled_cases)
        case (returned v)
        with all[of "Returned v"] show ?thesis by simp
      next
        case (failed m)
        with all[of "Raised m"] sig show ?thesis by simp
      next
        case (retry m out2)
        with all[of out2] r show ?thesis by (simp add: unit_outcome_fallback)
      qed
    qed
    have "results s = map PyStr chunks"
      using len each by (intro nth_equalityI) simp_all
    with each show ?thesis by blast
  qed
  from retry have "\<forall>i<length chunks. \<forall>msg rest.
      attempts i (trace s) = Raised msg # rest \<and> rate_limit_signature msg \<longrightarrow>
      (\<exists>out. rest = [out] \<and>
         unit_trace i (trace s) = [Acquired i, Called i (Raised msg), Slept i 5, Acquired i, Called i out] \<and>
         ((\<exists>retry_error. out = Raised retry_error) \<longrightarrow> results s ! i = PyStr (chunks ! i)))"
    by blast
  moreover from always have "(\<forall>c v. fst (process_func c v) = Raised (ascii ''429 quota exceeded'')) \<longrightarrow>
      (\<forall>i<length chunks. length (attempts i (trace s)) = 2) \<and> results s = map PyStr chunks"
    by blast
  ultimately show ?thesis using run by blast
qed

theorem rate_limit_retry_once_witness:
  "(0::int) < 2 \<and>
   complete_schedule 2
     [Admit 1, Admit 0, Run 0, Yield 0, Wake, Run 1, Readmit, Rerun, Yield 1, Wake, Readmit, Rerun] \<and>
   rate_limit_signature (ascii ''429 quota exceeded'') \<and>
   (\<exists>s. process_chunks_parallel (\<lambda>c w. (Raised (ascii ''429 quota exceeded''), Suc w))
          2 None [] [[97], [98]]
          [Admit 1, Admit 0, Run 0, Yield 0, Wake, Run 1, Readmit, Rerun, Yield 1, Wake, Readmit, Rerun]
          (0::nat) Map.empty = Inr s \<and>
        attempts 0 (trace s) =
          [Raised (ascii ''429 quota exceeded''), Raised (ascii ''429 quota exceeded'')] \<and>
        unit_trace 0 (trace s) =
          [Acquired 0, Called 0 (Raised (ascii ''429 quota exceeded'')), Slept 0 5, Acquired 0,
           Called 0 (Raised (ascii ''429 quota exceeded''))] \<and>
        length (attempts 1 (trace s)) = 2 \<and>
        world s = 4 \<and>
        results s = [PyStr [97], PyStr [98]])"
  using rate_limit_retry_once[of 2 "[[97], [98]]"
      "[Admit 1, Admit 0, Run 0, Yield 0, Wake, Run 1, Readmit, Rerun, Yield 1, Wake, Readmit, Rerun]"
      "\<lambda>c w. (Raised (ascii ''429 quota exceeded''), Suc w)" None "[]" 0 Map.empty]
  by (simp add: complete_schedule_def unit_served_def numeral_2_eq_2 less_Suc_eq
      process_chunks_parallel_def admit_def run_def yield_def wake_def readmit_def rerun_def
      rate_limit_block_def call_processor_def update_progress_def store_def keep_def
      rate_limit_signature_def ascii_def py_lower_def lower_codepoint_def
      attempts_def unit_trace_def)

text \<open>
  C4. When the first call for a unit fails with a message outside the rate limit class, or
  returns \<open>None\<close> or the empty string, there is no second call for that unit and the result
  at its index is the unit itself. No failure reaches the caller, and every other slot is
  filled as well. The units of the claim are units whose processor was called, so the pool
  exists: \<open>max_workers\<close> is positive; the schedule is any complete one.
\<close>

theorem no_retry_fallback:
  assumes "0 < max_workers" and "complete_schedule (length chunks) sched"
  shows "\<exists>s. process_chunks_parallel process_func max_workers job_id operation_name chunks sched w tr = Inr s \<and>
             length (results s) = length chunks \<and>
             (\<forall>i<length chunks.
                results s ! i \<noteq> PyNone \<and>
                (\<forall>msg rest. attempts i (trace s) = Raised msg # rest \<and> \<not> rate_limit_signature msg \<longrightarrow>
                   rest = [] \<and> results s ! i = PyStr (chunks ! i)) \<and>
                (\<forall>r rest. attempts i (trace s) = Returned r # rest \<and> \<not> truthy r \<longrightarrow>
                   rest = [] \<and> results s ! i = PyStr (chunks ! i)))"
proof -
  from dispatch_final[OF assms, of process_func job_id operation_name w tr] obtain s where
    run: "process_chunks_parallel process_func max_workers job_id operation_name chunks sched w tr = Inr s"
    and len: "length (results s) = length chunks"
    and fin: "\<forall>i<length chunks. \<exists>out. settled (trace s) i out \<and>
                results s ! i = unit_outcome (chunks ! i) (attempts i (trace s))"
    by (elim exE conjE)
  have "results s ! i \<noteq> PyNone \<and>
      (\<forall>msg rest. attempts i (trace s) = Raised msg # rest \<and> \<not> rate_limit_signature msg \<longrightarrow>
         rest = [] \<and> results s ! i = PyStr (chunks ! i)) \<and>
      (\<forall>r rest. attempts i (trace s) = Returned r # rest \<and> \<not> truthy r \<longrightarrow>
         rest = [] \<and> results s ! i = PyStr (chunks ! i))"
    if i: "i < length chunks" for i
  proof -
    from fin i obtain out where st: "settled (trace s) i out"
      and r: "results s ! i = unit_outcome (chunks ! i) (attempts i (trace s))" by blast
    from st show ?thesis
    proof (cases rule: settled_cases)
      case (returned v)
      with r show ?thesis by (cases v) (auto simp: unit_outcome_def keep_def)
    next
      case (failed m)
      with r show ?thesis by (simp add: unit_outcome_fallback)
    next
      case (retry m out2)
      with r show ?thesis by (cases out2) (auto simp: unit_outcome_def keep_def)
    qed
  qed
  with run len show ?thesis by blast
qed

theorem no_retry_fallback_witness:
  "(0::int) < 1 \<and>
   complete_schedule 2
     [Admit 0, Run 0, Admit 1, Yield 0, Wake, Readmit, Run 1, Rerun, Yield 1, Wake, Readmit, Rerun] \<and>
   \<not> rate_limit_signature (ascii ''boom'') \<and>
   (\<exists>s. process_chunks_parallel
          (\<lambda>c w. (if c = [97] then Raised (ascii ''boom'') else Returned (PyStr []), Suc w))
          1 None [] [[97], [98]]
          [Admit 0, Run 0, Admit 1, Yield 0, Wake, Readmit, Run 1, Rerun, Yield 1, Wake, Readmit, Rerun]
          (0::nat) Map.empty = Inr s \<and>
        attempts 0 (trace s) = [Raised (ascii ''boom'')] \<and>
        attempts 1 (trace s) = [Returned (PyStr [])] \<and>
        world s = 2 \<and>
        results s = [PyStr [97], PyStr [98]])"
  using no_retry_fallback[of 1 "[[97], [98]]"
      "[Admit 0, Run 0, Admit 1, Yield 0, Wake, Readmit, Run 1, Rerun, Yield 1, Wake, Readmit, Rerun]"
      "\<lambda>c w. (if c = [97] then Raised (ascii ''boom'') else Returned (PyStr []), Suc w)" None "[]" 0 Map.empty]
  by (simp add: complete_schedule_def unit_served_def numeral_2_eq_2 less_Suc_eq
      process_chunks_parallel_def admit_def run_def yield_def wake_def readmit_def rerun_def
      rate_limit_block_def call_processor_def update_progress_def store_def keep_def
      rate_limit_signature_def ascii_def py_lower_def lower_codepoint_def
      attempts_def unit_trace_def)

subsection \<open>The OCR pipeline\<close>

text \<open>
  C8. For every schedule of the pool that runs and yields every page, \<open>perform_ocr\<close>
  returns the non-empty page texts in page order, joined by a blank line; a page whose
  encoding or extraction fails, or whose text is white space only, has the empty text and
  does not appear in the join, and \<open>ocr_page\<close> returns for it instead of failing. With
  three pages of which the second fails, the result is the text of the first, a blank line
  and the text of the third.
\<close>

theorem perform_ocr_joins_pages:
  assumes "\<forall>i<length images. served i sched"
  shows "(\<exists>ts. length ts = length images \<and>
            (\<forall>i<length images. \<exists>v. (i, ts ! i) =
               fst (ocr_page enc ext job_id (length images) (i, images ! i) v)) \<and>
            fst (perform_ocr enc ext job_id images sched w tr) =
              py_join blank_line (filter (\<lambda>t. t \<noteq> []) ts) \<and>
            ((\<forall>b v. fst (ext b v) = f b) \<longrightarrow> ts = map (page_text enc f) images)) \<and>
         (\<forall>n index img v.
            (\<exists>e. enc img = Raised e) \<or>
            (\<exists>b e. enc img = Returned b \<and> fst (ext b (ocr_world v)) = Raised e) \<longrightarrow>
            fst (ocr_page enc ext job_id n (index, img) v) = (index, []))"
proof -
  from perform_ocr_final[OF assms, of enc ext job_id w tr] obtain ts where
    len: "length ts = length images"
    and each: "\<forall>i<length images. \<exists>v. (i, ts ! i) =
        fst (ocr_page enc ext job_id (length images) (i, images ! i) v)"
    and joined: "fst (perform_ocr enc ext job_id images sched w tr) =
        py_join blank_line (filter (\<lambda>t. t \<noteq> []) ts)"
    by blast
  have pure: "ts = map (page_text enc f) images" if f: "\<forall>b v. fst (ext b v) = f b"
  proof (rule nth_equalityI)
    show "length ts = length (map (page_text enc f) images)" using len by simp
  next
    fix i assume "i < length ts"
    with len have i: "i < length images" by simp
    with each obtain v where "(i, ts ! i) = fst (ocr_page enc ext job_id (length images) (i, images ! i) v)"
      by blast
    with ocr_page_pure[OF f i, of enc job_id "images ! i" v] have "ts ! i = page_text enc f (images ! i)"
      by simp
    with i show "ts ! i = map (page_text enc f) images ! i" by simp
  qed
  have fail: "\<forall>n index img v.
      (\<exists>e. enc img = Raised e) \<or>
      (\<exists>b e. enc img = Returned b \<and> fst (ext b (ocr_world v)) = Raised e) \<longrightarrow>
      fst (ocr_page enc ext job_id n (index, img) v) = (index, [])"
    using ocr_page_failure[of enc _ ext _ job_id] by blast
  from pure have "(\<forall>b v. fst (ext b v) = f b) \<longrightarrow> ts = map (page_text enc f) images" by blast
  with len each joined fail show ?thesis by blast
qed

theorem perform_ocr_joins_pages_witness:
  "served 0 [Work 2, Work 0, Complete 2, Work 1, Complete 1, Complete 0] \<and>
   served 1 [Work 2, Work 0, Complete 2, Work 1, Complete 1, Complete 0] \<and>
   served 2 [Work 2, Work 0, Complete 2, Work 1, Complete 1, Complete 0] \<and>
   fst (perform_ocr (\<lambda>img. Returned img)
          (\<lambda>b w. (if b = [50] then Raised (ascii ''Google Vision API error'') else Returned (b @ [33]), Suc w))
          (Some (ascii ''job'')) [[49], [50], [51]]
          [Work 2, Work 0, Complete 2, Work 1, Complete 1, Complete 0] (0::nat) Map.empty) =
     [49, 33] @ blank_line @ [51, 33]"
  using perform_ocr_joins_pages[of "[[49], [50], [51]]"
      "[Work 2, Work 0, Complete 2, Work 1, Complete 1, Complete 0]" "\<lambda>img. Returned img"
      "\<lambda>b w. (if b = [50] then Raised (ascii ''Google Vision API error'') else Returned (b @ [33]), Suc w)"
      "Some (ascii ''job'')" 0 Map.empty
      "\<lambda>b. if b = [50] then Raised (ascii ''Google Vision API error'') else Returned (b @ [33])"]
  by (simp add: served_def perform_ocr_def ocr_work_def ocr_complete_def ocr_page_def
      update_progress_def percentage_of_def py_truediv_def round_to_double_def floor_log2_def
      bit_length.simps round_half_even_def signed_def float_mul_def float_of_int_exact_def
      py_int_def Let_def page_status_def digits.simps ascii_def truthy_texts_def blank_line_def
      newline_def py_strip_def py_isspace_def)

end
